theory Spec2Isabelle
  imports Main "HOL-Library.Word"
begin

unbundle bit_operations_syntax

section \<open>The Hound I/O subsystem (io.c)\<close>

subsection \<open>Error codes, identifiers and records (hound.h)\<close>

text \<open>
  \<open>hound_err\<close> is a C enum whose values share an \<open>int\<close> with errno codes
  ("Hound error codes are negative while errno codes are positive").
\<close>

type_synonym hound_err = int

definition HOUND_OK :: hound_err where "HOUND_OK = 0"
definition HOUND_OOM :: hound_err where "HOUND_OOM = - 2"
definition HOUND_IO_ERROR :: hound_err where "HOUND_IO_ERROR = - 15"
definition HOUND_INTR :: hound_err where "HOUND_INTR = - 21"

text \<open>
  The errno values io.c tests after a failed system call; any other value is
  carried by \<open>E_other\<close>.
\<close>

datatype errno = EINTR | EIO | ENOMEM | E_other int

type_synonym hound_seqno = "64 word"
type_synonym hound_data_id = "32 word"
type_synonym hound_dev_id = "8 word"
type_synonym hound_record_size = "32 word"

text \<open>\<open>struct hound_record\<close>; the payload pointer \<open>data\<close> is an address.\<close>

record hound_record =
  seqno :: hound_seqno
  data_id :: hound_data_id
  dev_id :: hound_dev_id
  timestamp :: "int \<times> int"
  rec_size :: hound_record_size
  data :: nat

text \<open>
  \<open>struct record_info\<close>: the reference-counted wrapper io.c fills in
  (\<open>rec_info->record\<close>, \<open>rec_info->refcount\<close>).
\<close>

record record_info =
  refcount :: nat
  ri_record :: hound_record

text \<open>
  \<open>struct driver\<close> is opaque to io.c except for its \<open>id\<close>; \<open>drv_ptr\<close> is the
  identity of the object the \<open>const struct driver *\<close> points to.
\<close>

record driver =
  drv_ptr :: nat
  drv_id :: hound_dev_id

text \<open>A \<open>struct queue *\<close> is the identity of a queue.\<close>

type_synonym queue = nat

subsection \<open>The static state of io.c\<close>

definition HOUND_DRIVER_MAX_RECORDS :: nat where "HOUND_DRIVER_MAX_RECORDS = 1000"

definition POLL_BUF_SIZE :: nat where "POLL_BUF_SIZE = 100 * 1024"

text \<open>\<open>POLLIN\<close> and \<open>POLLPRI\<close> as poll.h of Linux defines them.\<close>

definition POLLIN :: "16 word" where "POLLIN = 1"
definition POLLPRI :: "16 word" where "POLLPRI = 2"
definition POLL_HAS_DATA :: "16 word" where "POLL_HAS_DATA = POLLIN OR POLLPRI"

text \<open>\<open>O_NONBLOCK\<close> as fcntl.h of Linux defines it.\<close>

definition O_NONBLOCK :: int where "O_NONBLOCK = 2048"

record fdctx =
  drv :: driver
  next_seqno :: hound_seqno
  queues :: "queue list"

record pollfd =
  fd :: int
  events :: "16 word"
  revents :: "16 word"

text \<open>What \<open>hound_log_err\<close> and \<open>hound_log_err_nofmt\<close> are called with.\<close>

datatype log_entry =
    Log_read_eio int
  | Log_parse_failed hound_err nat driver
  | Log_rec_info_oom
  | Log_poll_enomem
  | Log_poll_eio
  | Log_grab_failed hound_err int

text \<open>
  One call of \<open>drv_op_parse\<close> as the core made it: the offset of \<open>pos\<close> in
  \<open>s_read_buf\<close>, the byte count passed in through \<open>&bytes_left\<close>, the length of
  the record array passed, and the error and byte count the driver left.
\<close>

record parse_call =
  pc_pos :: nat
  pc_bytes :: nat
  pc_capacity :: nat
  pc_err :: hound_err
  pc_left :: nat

datatype barrier_event = Pause | Resume

text \<open>
  The file-scope variables of io.c (\<open>s_ios\<close>, the two pause flags, the read
  buffer and the record array), the state \<open>world\<close> of everything outside io.c
  (kernel, drivers, allocator), and the effects io.c has on its collaborators, in
  call order: the wrappers it initialised, the \<open>queue_push\<close> calls, the log calls,
  the \<open>drv_op_parse\<close> calls and the pause/resume calls.
\<close>

record 'w io_state =
  s_ios_ctx :: "fdctx list"
  s_ios_fds :: "pollfd list"
  s_poll_active_target :: bool
  s_poll_active_current :: bool
  s_read_buf :: "8 word list"
  s_records :: "hound_record list"
  world :: 'w
  wrappers :: "record_info list"
  pushes :: "(queue \<times> record_info) list"
  logs :: "log_entry list"
  parse_calls :: "parse_call list"
  barrier :: "barrier_event list"

text \<open>
  The file-scope variables as the program starts and \<open>io_init\<close> leaves them:
  statics are zero-initialised, \<open>s_read_buf\<close> has \<open>POLL_BUF_SIZE\<close> bytes,
  \<open>s_records\<close> has \<open>HOUND_DRIVER_MAX_RECORDS\<close> records, and \<open>xv_init\<close> empties both
  vectors.
\<close>

definition zero_record :: hound_record where
  "zero_record = \<lparr>seqno = 0, data_id = 0, dev_id = 0, timestamp = (0, 0), rec_size = 0, data = 0\<rparr>"

definition io_statics :: "'w \<Rightarrow> 'w io_state" where
  "io_statics w =
    \<lparr>s_ios_ctx = [], s_ios_fds = [],
     s_poll_active_target = False, s_poll_active_current = False,
     s_read_buf = replicate POLL_BUF_SIZE 0,
     s_records = replicate HOUND_DRIVER_MAX_RECORDS zero_record,
     world = w, wrappers = [], pushes = [], logs = [], parse_calls = [], barrier = []\<rparr>"

subsection \<open>The collaborators of io.c\<close>

datatype read_result = Read_ok "8 word list" | Read_err errno

text \<open>
  What a driver's \<open>parse\<close> did: the error it returned, the value it left in
  \<open>*bytes\<close>, the records it stored from the start of the array it was given, and
  the value it left in \<open>*record_count\<close>.
\<close>

record parse_result =
  p_err :: hound_err
  p_bytes :: nat
  p_records :: "hound_record list"
  p_count :: nat

text \<open>
  What \<open>ppoll\<close> did: its return value, errno when that is -1, and the
  \<open>revents\<close> it stored in the entry at each index otherwise.
\<close>

record poll_result =
  pr_ret :: int
  pr_errno :: errno
  pr_revents :: "nat \<Rightarrow> 16 word"

text \<open>
  The functions io.c calls and does not define, each reading and updating the
  outside world: \<open>read(2)\<close> on an fd with a capacity, \<open>drv_op_parse\<close> for a
  driver on the buffer at an offset with a byte count and the record array,
  \<open>drv_alloc\<close> and \<open>malloc\<close> (\<open>True\<close> for a non-NULL pointer), \<open>ppoll\<close> on
  the pollfd array, \<open>fcntl\<close> with \<open>F_GETFL\<close> and with \<open>F_SETFL\<close>, and whether a
  push onto an xlib vector could allocate. xlib is not part of the sources: what a
  vector holds after a push that could not allocate is left to the three
  \<open>xv_failed\<close> functions.
\<close>

record 'w env =
  sys_read :: "'w \<Rightarrow> int \<Rightarrow> nat \<Rightarrow> read_result \<times> 'w"
  drv_op_parse ::
    "'w \<Rightarrow> driver \<Rightarrow> 8 word list \<Rightarrow> nat \<Rightarrow> nat \<Rightarrow> hound_record list \<Rightarrow> parse_result \<times> 'w"
  drv_alloc :: "'w \<Rightarrow> bool \<times> 'w"
  sys_malloc :: "'w \<Rightarrow> bool \<times> 'w"
  sys_ppoll :: "'w \<Rightarrow> pollfd list \<Rightarrow> poll_result \<times> 'w"
  fcntl_getfl :: "'w \<Rightarrow> int \<Rightarrow> int \<times> 'w"
  fcntl_setfl :: "'w \<Rightarrow> int \<Rightarrow> int \<Rightarrow> int \<times> 'w"
  xv_grow :: "'w \<Rightarrow> bool \<times> 'w"
  xv_failed_fds :: "pollfd list \<Rightarrow> pollfd list"
  xv_failed_ctx :: "fdctx list \<Rightarrow> fdctx list"
  xv_failed_queues :: "queue list \<Rightarrow> queue list"

subsection \<open>io_read\<close>

text \<open>
  How a call into io.c ends: it returns an error code, or the process is
  terminated by a failed \<open>XASSERT\<close>, or it reads or writes the record array out
  of bounds (undefined behaviour in C).

  Modelled from the spec: the \<open>XASSERT\<close> macros come from xlib, which is not part
  of the sources; "Assertion failures (invariant violations) terminate the
  process".
\<close>

datatype io_result = Ret hound_err | Assert_failed | Out_of_bounds

text \<open>The inner loop of the fan-out: \<open>queue_push\<close> on every attached queue, in order.\<close>

fun queue_push_all ::
  "queue list \<Rightarrow> record_info \<Rightarrow> (queue \<times> record_info) list \<Rightarrow> (queue \<times> record_info) list"
where
  "queue_push_all [] ri ps = ps"
| "queue_push_all (q # qs) ri ps = queue_push_all qs ri (ps @ [(q, ri)])"

text \<open>
  "Add to all user queues": the loop over the records at the given indices of
  \<open>s_records\<close>. A failed \<open>drv_alloc\<close> logs and goes on with the next record;
  otherwise the record gets the context's sequence number and the driver's id in
  place, the counter is incremented, and the wrapper is initialised with the number
  of attached queues and pushed to each of them.
\<close>

fun add_to_queues ::
  "'w env \<Rightarrow> nat list \<Rightarrow> fdctx \<Rightarrow> 'w io_state \<Rightarrow> fdctx \<times> 'w io_state"
where
  "add_to_queues env [] ctx st = (ctx, st)"
| "add_to_queues env (i # is) ctx st =
    (case drv_alloc env (world st) of (ok, w') \<Rightarrow>
      if \<not> ok then
        add_to_queues env is ctx (st\<lparr>world := w', logs := logs st @ [Log_rec_info_oom]\<rparr>)
      else
        let r = (s_records st ! i)\<lparr>seqno := next_seqno ctx, dev_id := drv_id (drv ctx)\<rparr>;
            ctx' = ctx\<lparr>next_seqno := next_seqno ctx + 1\<rparr>;
            ri = \<lparr>refcount = length (queues ctx'), ri_record = r\<rparr>
        in add_to_queues env is ctx'
             (st\<lparr>world := w',
                 s_records := (s_records st)[i := r],
                 wrappers := wrappers st @ [ri],
                 pushes := queue_push_all (queues ctx') ri (pushes st)\<rparr>))"

text \<open>
  The \<open>while (bytes_left > 0)\<close> loop of \<open>io_read\<close>, from the buffer offset
  \<open>pos\<close>. The driver's stores into the record array are checked against its
  length, and so is the count the core then reads back.
\<close>

function parse_loop ::
  "'w env \<Rightarrow> nat \<Rightarrow> nat \<Rightarrow> fdctx \<Rightarrow> 'w io_state \<Rightarrow> io_result \<times> fdctx \<times> 'w io_state"
where
  "parse_loop env pos bytes_left ctx st =
    (if bytes_left > 0 then
       (case drv_op_parse env (world st) (drv ctx) (s_read_buf st) pos bytes_left (s_records st)
        of (res, w') \<Rightarrow>
          let bytes_total = bytes_left;
              st1 = st\<lparr>world := w',
                       parse_calls := parse_calls st @
                         [\<lparr>pc_pos = pos, pc_bytes = bytes_left,
                           pc_capacity = length (s_records st),
                           pc_err = p_err res, pc_left = p_bytes res\<rparr>]\<rparr>
          in
          if length (p_records res) > length (s_records st) then (Out_of_bounds, ctx, st1)
          else
            let st2 = st1\<lparr>s_records :=
                        p_records res @ drop (length (p_records res)) (s_records st)\<rparr>
            in
            if p_err res \<noteq> HOUND_OK then
              (Ret (p_err res), ctx,
               st2\<lparr>logs := logs st2 @ [Log_parse_failed (p_err res) bytes_total (drv ctx)]\<rparr>)
            else if \<not> p_bytes res \<le> bytes_total then (Assert_failed, ctx, st2)
            else if p_bytes res = bytes_total then (Ret HOUND_OK, ctx, st2)
            else if \<not> p_count res > 0 then (Assert_failed, ctx, st2)
            else if p_count res > length (s_records st2) then (Out_of_bounds, ctx, st2)
            else
              (case add_to_queues env [0..<p_count res] ctx st2 of (ctx', st3) \<Rightarrow>
                 parse_loop env (pos + (bytes_total - p_bytes res)) (p_bytes res) ctx' st3))
     else (Ret HOUND_OK, ctx, st))"
  by pat_completeness auto
termination
  by (relation "measure (\<lambda>(env, pos, bytes_left, ctx, st). bytes_left)") auto

text \<open>
  \<open>io_read\<close>: one \<open>read\<close> into \<open>s_read_buf\<close> (at most \<open>POLL_BUF_SIZE\<close> bytes,
  stored from offset 0), then the parse loop from offset 0.
\<close>

definition io_read ::
  "'w env \<Rightarrow> int \<Rightarrow> fdctx \<Rightarrow> 'w io_state \<Rightarrow> io_result \<times> fdctx \<times> 'w io_state"
where
  "io_read env fd_no ctx st =
    (case sys_read env (world st) fd_no POLL_BUF_SIZE of
       (Read_err e, w') \<Rightarrow>
         if e = EINTR then (Ret HOUND_INTR, ctx, st\<lparr>world := w'\<rparr>)
         else if e = EIO then
           (Ret HOUND_IO_ERROR, ctx, st\<lparr>world := w', logs := logs st @ [Log_read_eio fd_no]\<rparr>)
         else (Assert_failed, ctx, st\<lparr>world := w'\<rparr>)
     | (Read_ok bytes, w') \<Rightarrow>
         let got = take POLL_BUF_SIZE bytes in
         parse_loop env 0 (length got) ctx
           (st\<lparr>world := w', s_read_buf := got @ drop (length got) (s_read_buf st)\<rparr>))"

subsection \<open>Facts about the parse loop\<close>

text \<open>
  The consecutive sequence numbers starting at \<open>s\<close>, in \<open>hound_seqno\<close>
  arithmetic.
\<close>

definition seq_from :: "hound_seqno \<Rightarrow> nat \<Rightarrow> hound_seqno list" where
  "seq_from s n = map (\<lambda>k. s + of_nat k) [0..<n]"

lemma queue_push_all_eq: "queue_push_all qs ri ps = ps @ map (\<lambda>q. (q, ri)) qs"
  by (induction qs arbitrary: ps) auto

lemma seq_from_0 [simp]: "seq_from s 0 = []" by (simp add: seq_from_def)

lemma seq_from_Suc: "seq_from s (Suc n) = s # seq_from (s + 1) n"
  unfolding seq_from_def
  by (simp only: map_upt_Suc) (simp add: ac_simps)

lemma seq_from_add: "seq_from s (a + b) = seq_from s a @ seq_from (s + of_nat a) b"
  by (induction a arbitrary: s) (simp_all add: seq_from_Suc ac_simps)

text \<open>
  What the fan-out does between two states: it initialises the wrappers \<open>ws\<close>, in
  order, each with the number of attached queues as its refcount and the driver's
  id, pushes each of them to every attached queue in turn, numbers them
  consecutively from the context's counter and advances the counter by their
  number; the queue vector and the driver of the context stay as they are.
\<close>

definition fanned ::
  "fdctx \<Rightarrow> 'w io_state \<Rightarrow> fdctx \<Rightarrow> 'w io_state \<Rightarrow> record_info list \<Rightarrow> bool" where
  "fanned ctx st ctx' st' ws \<longleftrightarrow>
     wrappers st' = wrappers st @ ws \<and>
     pushes st' = pushes st @ concat (map (\<lambda>w. map (\<lambda>q. (q, w)) (queues ctx)) ws) \<and>
     map (\<lambda>w. seqno (ri_record w)) ws = seq_from (next_seqno ctx) (length ws) \<and>
     list_all (\<lambda>w. refcount w = length (queues ctx) \<and> dev_id (ri_record w) = drv_id (drv ctx)) ws \<and>
     next_seqno ctx' = next_seqno ctx + of_nat (length ws) \<and>
     queues ctx' = queues ctx \<and> drv ctx' = drv ctx"

lemma fanned_refl: "wrappers st' = wrappers st \<Longrightarrow> pushes st' = pushes st \<Longrightarrow> fanned ctx st ctx st' []"
  by (simp add: fanned_def)

lemma fanned_trans:
  "fanned ctx st ctx1 st1 ws1 \<Longrightarrow> fanned ctx1 st1 ctx2 st2 ws2 \<Longrightarrow> fanned ctx st ctx2 st2 (ws1 @ ws2)"
  by (simp add: fanned_def seq_from_add add.assoc)

lemma add_to_queues_fanned:
  "add_to_queues env is ctx st = (ctx', st') \<Longrightarrow> \<exists>ws. fanned ctx st ctx' st' ws"
proof (induction "is" arbitrary: ctx st)
  case Nil
  then show ?case by (auto intro: fanned_refl)
next
  case (Cons i "is")
  obtain ok w' where a: "drv_alloc env (world st) = (ok, w')" by (cases "drv_alloc env (world st)")
  show ?case
  proof (cases ok)
    case False
    with Cons.prems a have "add_to_queues env is ctx (st\<lparr>world := w', logs := logs st @ [Log_rec_info_oom]\<rparr>) = (ctx', st')"
      by simp
    from Cons.IH[OF this] obtain ws where "fanned ctx (st\<lparr>world := w', logs := logs st @ [Log_rec_info_oom]\<rparr>) ctx' st' ws" ..
    then have "fanned ctx st ctx' st' ws" by (simp add: fanned_def)
    then show ?thesis ..
  next
    case True
    define r where "r = (s_records st ! i)\<lparr>seqno := next_seqno ctx, dev_id := drv_id (drv ctx)\<rparr>"
    define ctx1 where "ctx1 = ctx\<lparr>next_seqno := next_seqno ctx + 1\<rparr>"
    define ri where "ri = \<lparr>refcount = length (queues ctx1), ri_record = r\<rparr>"
    define st1 where "st1 = st\<lparr>world := w', s_records := (s_records st)[i := r],
                 wrappers := wrappers st @ [ri],
                 pushes := queue_push_all (queues ctx1) ri (pushes st)\<rparr>"
    from Cons.prems a True have "add_to_queues env is ctx1 st1 = (ctx', st')"
      by (simp add: Let_def r_def ctx1_def ri_def st1_def)
    from Cons.IH[OF this] obtain ws where f: "fanned ctx1 st1 ctx' st' ws" ..
    have "fanned ctx st ctx1 st1 [ri]"
      by (simp add: fanned_def st1_def ctx1_def ri_def r_def queue_push_all_eq seq_from_Suc)
    from fanned_trans[OF this f] show ?thesis ..
  qed
qed


declare parse_loop.simps [simp del]

text \<open>
  Two states agree on the vectors, the pause flags, the read buffer, the barrier
  calls and the length of the record array.
\<close>

definition same_statics :: "'w io_state \<Rightarrow> 'w io_state \<Rightarrow> bool" where
  "same_statics st st' \<longleftrightarrow>
     s_ios_fds st' = s_ios_fds st \<and> s_ios_ctx st' = s_ios_ctx st \<and>
     s_poll_active_target st' = s_poll_active_target st \<and>
     s_poll_active_current st' = s_poll_active_current st \<and>
     s_read_buf st' = s_read_buf st \<and> barrier st' = barrier st \<and>
     length (s_records st') = length (s_records st)"

lemma same_statics_refl: "same_statics st st"
  by (simp add: same_statics_def)

lemma same_statics_trans: "same_statics a b \<Longrightarrow> same_statics b c \<Longrightarrow> same_statics a c"
  by (simp add: same_statics_def)

text \<open>
  The state after a \<open>drv_op_parse\<close> call that stayed within the record array: the
  call is recorded and the driver's records are stored from the start of the array.
\<close>

definition after_parse :: "'w io_state \<Rightarrow> nat \<Rightarrow> nat \<Rightarrow> parse_result \<Rightarrow> 'w \<Rightarrow> 'w io_state" where
  "after_parse st pos b res w' =
     st\<lparr>world := w',
        parse_calls := parse_calls st @
          [\<lparr>pc_pos = pos, pc_bytes = b, pc_capacity = length (s_records st),
            pc_err = p_err res, pc_left = p_bytes res\<rparr>],
        s_records := p_records res @ drop (length (p_records res)) (s_records st)\<rparr>"

text \<open>
  One iteration of the parse loop: the loop is over because no bytes are left; or
  the parse call ends it (an error, a failed assertion, an access outside the
  array, or an unchanged byte count); or the call consumed bytes and produced
  records, these are fanned out and the loop goes on behind the consumed bytes.
\<close>

lemma parse_loop_cases:
  assumes "parse_loop env pos b ctx st = (r, ctx', st')"
  obtains
    (finished) "b = 0" "r = Ret HOUND_OK" "ctx' = ctx" "st' = st"
  | (stop) res w' where "0 < b"
      "drv_op_parse env (world st) (drv ctx) (s_read_buf st) pos b (s_records st) = (res, w')"
      "ctx' = ctx"
      "same_statics st st'"
      "wrappers st' = wrappers st" "pushes st' = pushes st"
      "parse_calls st' = parse_calls st @
          [\<lparr>pc_pos = pos, pc_bytes = b, pc_capacity = length (s_records st),
            pc_err = p_err res, pc_left = p_bytes res\<rparr>]"
      "r = Ret HOUND_OK \<longrightarrow> p_err res = HOUND_OK \<and> p_bytes res = b \<and> logs st' = logs st"
      "\<forall>e. r = Ret e \<and> e \<noteq> HOUND_OK \<longrightarrow>
         p_err res = e \<and> logs st' = logs st @ [Log_parse_failed e b (drv ctx)]"
  | (again) res w' ctx1 st3 where "0 < b"
      "drv_op_parse env (world st) (drv ctx) (s_read_buf st) pos b (s_records st) = (res, w')"
      "p_err res = HOUND_OK" "p_bytes res < b" "0 < p_count res"
      "p_count res \<le> length (s_records st)" "length (p_records res) \<le> length (s_records st)"
      "add_to_queues env [0..<p_count res] ctx (after_parse st pos b res w') = (ctx1, st3)"
      "parse_loop env (pos + (b - p_bytes res)) (p_bytes res) ctx1 st3 = (r, ctx', st')"
proof (cases "0 < b")
  case False
  with assms have "r = Ret HOUND_OK" "ctx' = ctx" "st' = st"
    by (simp_all add: parse_loop.simps)
  with False show ?thesis using finished by simp
next
  case True
  obtain res w' where p:
    "drv_op_parse env (world st) (drv ctx) (s_read_buf st) pos b (s_records st) = (res, w')"
    by (cases "drv_op_parse env (world st) (drv ctx) (s_read_buf st) pos b (s_records st)")
  show ?thesis
  proof (cases "p_err res = HOUND_OK \<and> p_bytes res < b \<and> 0 < p_count res \<and>
      p_count res \<le> length (s_records st) \<and> length (p_records res) \<le> length (s_records st)")
    case go: True
    obtain ctx1 st3 where a:
      "add_to_queues env [0..<p_count res] ctx (after_parse st pos b res w') = (ctx1, st3)"
      by (cases "add_to_queues env [0..<p_count res] ctx (after_parse st pos b res w')")
    from assms True p go a
    have "parse_loop env (pos + (b - p_bytes res)) (p_bytes res) ctx1 st3 = (r, ctx', st')"
      by (subst (asm) parse_loop.simps) (simp add: Let_def after_parse_def)
    with True p go a show ?thesis using again by blast
  next
    case nogo: False
    from assms True p nogo
    have "ctx' = ctx \<and> same_statics st st' \<and>
      wrappers st' = wrappers st \<and> pushes st' = pushes st \<and>
      parse_calls st' = parse_calls st @
          [\<lparr>pc_pos = pos, pc_bytes = b, pc_capacity = length (s_records st),
            pc_err = p_err res, pc_left = p_bytes res\<rparr>] \<and>
      (r = Ret HOUND_OK \<longrightarrow> p_err res = HOUND_OK \<and> p_bytes res = b \<and> logs st' = logs st) \<and>
      (\<forall>e. r = Ret e \<and> e \<noteq> HOUND_OK \<longrightarrow>
         p_err res = e \<and> logs st' = logs st @ [Log_parse_failed e b (drv ctx)])"
      by (subst (asm) parse_loop.simps)
         (auto simp add: Let_def same_statics_def split: if_splits)
    with True p show ?thesis using stop by blast
  qed
qed

lemma add_to_queues_statics:
  "add_to_queues env is ctx st = (ctx', st') \<Longrightarrow>
     same_statics st st' \<and> parse_calls st' = parse_calls st"
proof (induction "is" arbitrary: ctx st)
  case Nil
  then show ?case by (simp add: same_statics_def)
next
  case (Cons i "is")
  obtain ok w' where a: "drv_alloc env (world st) = (ok, w')" by (cases "drv_alloc env (world st)")
  show ?case
  proof (cases ok)
    case False
    with Cons.prems a have "add_to_queues env is ctx (st\<lparr>world := w', logs := logs st @ [Log_rec_info_oom]\<rparr>) = (ctx', st')"
      by simp
    from Cons.IH[OF this] show ?thesis by (simp add: same_statics_def)
  next
    case True
    define r where "r = (s_records st ! i)\<lparr>seqno := next_seqno ctx, dev_id := drv_id (drv ctx)\<rparr>"
    define ctx1 where "ctx1 = ctx\<lparr>next_seqno := next_seqno ctx + 1\<rparr>"
    define ri where "ri = \<lparr>refcount = length (queues ctx1), ri_record = r\<rparr>"
    define st1 where "st1 = st\<lparr>world := w', s_records := (s_records st)[i := r],
                 wrappers := wrappers st @ [ri],
                 pushes := queue_push_all (queues ctx1) ri (pushes st)\<rparr>"
    from Cons.prems a True have "add_to_queues env is ctx1 st1 = (ctx', st')"
      by (simp add: Let_def r_def ctx1_def ri_def st1_def)
    from Cons.IH[OF this] show ?thesis by (simp add: same_statics_def st1_def)
  qed
qed

lemma after_parse_statics:
  "length (p_records res) \<le> length (s_records st) \<Longrightarrow> same_statics st (after_parse st pos b res w')"
  by (simp add: same_statics_def after_parse_def)

lemma parse_loop_statics:
  "parse_loop env pos b ctx st = (r, ctx', st') \<Longrightarrow> same_statics st st'"
proof (induction b arbitrary: pos ctx st rule: less_induct)
  case (less b)
  from less.prems show ?case
  proof (cases rule: parse_loop_cases)
    case finished
    then show ?thesis by (simp add: same_statics_refl)
  next
    case (stop res w')
    then show ?thesis by simp
  next
    case (again res w' ctx1 st3)
    from add_to_queues_statics[OF again(8)] after_parse_statics[OF again(7)]
    have "same_statics st st3" by (blast intro: same_statics_trans)
    moreover from less.IH[OF again(4) again(9)] have "same_statics st3 st'" .
    ultimately show ?thesis by (rule same_statics_trans)
  qed
qed

lemma io_read_statics:
  assumes "io_read env f ctx st = (r, ctx', st')"
  shows "s_ios_fds st' = s_ios_fds st" "s_ios_ctx st' = s_ios_ctx st"
     "s_poll_active_target st' = s_poll_active_target st"
     "s_poll_active_current st' = s_poll_active_current st"
     "barrier st' = barrier st" "length (s_records st') = length (s_records st)"
proof -
  obtain rr w' where rd: "sys_read env (world st) f POLL_BUF_SIZE = (rr, w')"
    by (cases "sys_read env (world st) f POLL_BUF_SIZE")
  have "s_ios_fds st' = s_ios_fds st \<and> s_ios_ctx st' = s_ios_ctx st \<and>
     s_poll_active_target st' = s_poll_active_target st \<and>
     s_poll_active_current st' = s_poll_active_current st \<and>
     barrier st' = barrier st \<and> length (s_records st') = length (s_records st)"
  proof (cases rr)
    case (Read_ok bytes)
    with assms rd have "parse_loop env 0 (length (take POLL_BUF_SIZE bytes)) ctx
           (st\<lparr>world := w', s_read_buf := take POLL_BUF_SIZE bytes @
               drop (length (take POLL_BUF_SIZE bytes)) (s_read_buf st)\<rparr>) = (r, ctx', st')"
      by (simp add: io_read_def Let_def)
    from parse_loop_statics[OF this] show ?thesis by (simp add: same_statics_def)
  next
    case (Read_err e)
    with assms rd show ?thesis by (auto simp: io_read_def split: if_splits)
  qed
  then show "s_ios_fds st' = s_ios_fds st" "s_ios_ctx st' = s_ios_ctx st"
     "s_poll_active_target st' = s_poll_active_target st"
     "s_poll_active_current st' = s_poll_active_current st"
     "barrier st' = barrier st" "length (s_records st') = length (s_records st)" by simp_all
qed

subsection \<open>The pause barrier and the event loop\<close>

text \<open>
  \<open>io_pause_poll\<close> signals the I/O thread and then, while
  \<open>s_poll_active_current\<close> is set, clears \<open>s_poll_active_target\<close> and waits on the
  condition variable until \<open>io_wait_for_ready\<close> has cleared
  \<open>s_poll_active_current\<close>. This is the state in which it returns.
\<close>

definition io_pause_poll :: "'w io_state \<Rightarrow> 'w io_state" where
  "io_pause_poll st =
    (let st1 = st\<lparr>barrier := barrier st @ [Pause]\<rparr> in
     if s_poll_active_current st1
     then st1\<lparr>s_poll_active_target := False, s_poll_active_current := False\<rparr>
     else st1)"

definition io_resume_poll :: "'w io_state \<Rightarrow> 'w io_state" where
  "io_resume_poll st = st\<lparr>s_poll_active_target := True, barrier := barrier st @ [Resume]\<rparr>"

text \<open>
  How one pass of the \<open>while (true)\<close> loop of \<open>io_poll\<close> ends: the thread goes
  on to the next pass (back to \<open>io_wait_for_ready\<close>), it stays blocked in
  \<open>io_wait_for_ready\<close>, or the process is terminated.
\<close>

datatype loop_step = Next_cycle | Blocked | Terminated

text \<open>
  \<open>io_wait_for_ready\<close> returns, with \<open>s_poll_active_current\<close> set, once the target
  flag is set and there is an fd; until then it clears \<open>s_poll_active_current\<close> and
  waits.
\<close>

definition io_wait_for_ready :: "'w io_state \<Rightarrow> 'w io_state option" where
  "io_wait_for_ready st =
    (if \<not> s_poll_active_target st \<or> length (s_ios_fds st) = 0 then None
     else Some (st\<lparr>s_poll_active_current := True\<rparr>))"

text \<open>
  "Read all fds that have data": the \<open>for\<close> loop of \<open>io_poll\<close> from index \<open>i\<close>
  with \<open>fds\<close> readable entries still to find. The context at the index is
  written back where \<open>io_read\<close> updated it through the pointer.
\<close>

function read_fds :: "'w env \<Rightarrow> nat \<Rightarrow> int \<Rightarrow> 'w io_state \<Rightarrow> loop_step \<times> 'w io_state" where
  "read_fds env i fds st =
    (if fds > 0 \<and> i < length (s_ios_fds st) then
       let pfd = s_ios_fds st ! i in
       if revents pfd = 0 then read_fds env (i + 1) fds st
       else if revents pfd AND POLL_HAS_DATA = 0 then (Terminated, st)
       else if \<not> i < length (s_ios_ctx st) then (Terminated, st)
       else
         (case io_read env (fd pfd) (s_ios_ctx st ! i) st of (r, ctx', st') \<Rightarrow>
           let st1 = st'\<lparr>s_ios_ctx := (s_ios_ctx st')[i := ctx']\<rparr> in
           (case r of
              Ret err \<Rightarrow>
                if err = HOUND_INTR then (Next_cycle, st1)
                else if err \<noteq> HOUND_OK then
                  read_fds env (i + 1) (fds - 1)
                    (st1\<lparr>logs := logs st1 @ [Log_grab_failed err (fd pfd)]\<rparr>)
                else read_fds env (i + 1) (fds - 1) st1
            | Assert_failed \<Rightarrow> (Terminated, st1)
            | Out_of_bounds \<Rightarrow> (Terminated, st1)))
     else (Next_cycle, st))"
  by pat_completeness auto
termination
  by (relation "measure (\<lambda>(env, i, fds, st). length (s_ios_fds st) - i)")
     (auto dest: io_read_statics(1) [OF sym])

text \<open>
  One pass of the \<open>while (true)\<close> loop of \<open>io_poll\<close>. After the \<open>if (fds == -1)\<close>
  block, which leaves the pass only for \<open>EINTR\<close>, comes \<open>XASSERT_GT(fds, 0)\<close>.
\<close>

definition io_poll_cycle :: "'w env \<Rightarrow> 'w io_state \<Rightarrow> loop_step \<times> 'w io_state" where
  "io_poll_cycle env st =
    (case io_wait_for_ready st of
       None \<Rightarrow> (Blocked, st\<lparr>s_poll_active_current := False\<rparr>)
     | Some st0 \<Rightarrow>
        (case sys_ppoll env (world st0) (s_ios_fds st0) of (pr, w') \<Rightarrow>
          let fds = pr_ret pr; st1 = st0\<lparr>world := w'\<rparr> in
          if fds = - 1 \<and> pr_errno pr = EINTR then (Next_cycle, st1)
          else if fds = - 1 \<and> pr_errno pr \<noteq> ENOMEM \<and> pr_errno pr \<noteq> EIO then (Terminated, st1)
          else
            let st2 =
              (if fds = - 1 then
                 st1\<lparr>logs := logs st1 @
                   [if pr_errno pr = ENOMEM then Log_poll_enomem else Log_poll_eio]\<rparr>
               else
                 st1\<lparr>s_ios_fds := map (\<lambda>k. (s_ios_fds st1 ! k)\<lparr>revents := pr_revents pr k\<rparr>)
                                     [0..<length (s_ios_fds st1)]\<rparr>)
            in
            if \<not> fds > 0 then (Terminated, st2)
            else read_fds env 0 fds st2))"

text \<open>
  The I/O thread over at most \<open>n\<close> passes: it stops early when it is blocked in
  \<open>io_wait_for_ready\<close> or the process is terminated.
\<close>

fun io_poll :: "'w env \<Rightarrow> nat \<Rightarrow> 'w io_state \<Rightarrow> loop_step \<times> 'w io_state" where
  "io_poll env 0 st = (Next_cycle, st)"
| "io_poll env (Suc n) st =
    (case io_poll_cycle env st of
       (Next_cycle, st') \<Rightarrow> io_poll env n st'
     | (Blocked, st') \<Rightarrow> (Blocked, st')
     | (Terminated, st') \<Rightarrow> (Terminated, st'))"

subsection \<open>The mutators of the fd set\<close>

text \<open>
  The search loop of \<open>get_fd_index\<close> from an index: the index of the first entry
  for the fd, or the size of the vector.
\<close>

fun find_fd :: "pollfd list \<Rightarrow> int \<Rightarrow> nat \<Rightarrow> nat" where
  "find_fd [] f index = index"
| "find_fd (pfd # pfds) f index = (if fd pfd = f then index else find_fd pfds f (index + 1))"

text \<open>\<open>get_fd_index\<close>; \<open>None\<close> is the failed \<open>XASSERT_NEQ(index, xv_size(s_ios.fds))\<close>.\<close>

definition get_fd_index :: "'w io_state \<Rightarrow> int \<Rightarrow> nat option" where
  "get_fd_index st f =
    (let index = find_fd (s_ios_fds st) f 0 in
     if index = length (s_ios_fds st) then None else Some index)"

text \<open>
  Modelled from the spec: \<open>RM_VEC_INDEX\<close> is a macro of util.h, which is not part of
  the sources. It removes the element at the index; "the arrays are index-aligned;
  mutations keep them so".
\<close>

definition RM_VEC_INDEX :: "'a list \<Rightarrow> nat \<Rightarrow> 'a list" where
  "RM_VEC_INDEX v index = take index v @ drop (Suc index) v"

text \<open>
  \<open>io_add_fd\<close>; a NULL \<open>drv\<close> is \<open>None\<close>. \<open>revents\<close> of the new entry is not
  written here: \<open>ppoll\<close> stores it before \<open>io_poll\<close> reads it.
\<close>

definition io_add_fd ::
  "'w env \<Rightarrow> int \<Rightarrow> driver option \<Rightarrow> 'w io_state \<Rightarrow> io_result \<times> 'w io_state"
where
  "io_add_fd env f d st =
    (case d of
       None \<Rightarrow> (Assert_failed, st)
     | Some dv \<Rightarrow>
        if f = 0 then (Assert_failed, st)
        else
          (case fcntl_getfl env (world st) f of (flags, w1) \<Rightarrow>
            if flags = - 1 then (Assert_failed, st\<lparr>world := w1\<rparr>)
            else
              (case fcntl_setfl env w1 f (flags OR O_NONBLOCK) of (err, w2) \<Rightarrow>
                if err = - 1 then (Assert_failed, st\<lparr>world := w2\<rparr>)
                else
                  let st1 = io_pause_poll (st\<lparr>world := w2\<rparr>) in
                  (case xv_grow env (world st1) of (pushed, w3) \<Rightarrow>
                    if \<not> pushed then
                      (Ret HOUND_OOM,
                       io_resume_poll
                         (st1\<lparr>world := w3, s_ios_fds := xv_failed_fds env (s_ios_fds st1)\<rparr>))
                    else
                      let st2 = st1\<lparr>world := w3,
                                  s_ios_fds := s_ios_fds st1 @
                                    [\<lparr>fd = f, events = POLL_HAS_DATA, revents = 0\<rparr>]\<rparr>
                      in
                      (case sys_malloc env (world st2) of (allocated, w4) \<Rightarrow>
                        if \<not> allocated then
                          (Ret HOUND_OOM,
                           io_resume_poll
                             (st2\<lparr>world := w4, s_ios_fds := butlast (s_ios_fds st2)\<rparr>))
                        else
                          let ctx = \<lparr>drv = dv, next_seqno = 0, queues = []\<rparr> in
                          (case xv_grow env w4 of (pushed', w5) \<Rightarrow>
                            if \<not> pushed' then
                              (Ret HOUND_OOM,
                               io_resume_poll
                                 (st2\<lparr>world := w5,
                                     s_ios_ctx := xv_failed_ctx env (s_ios_ctx st2),
                                     s_ios_fds := butlast (s_ios_fds st2)\<rparr>))
                            else
                              (Ret HOUND_OK,
                               io_resume_poll
                                 (st2\<lparr>world := w5, s_ios_ctx := s_ios_ctx st2 @ [ctx]\<rparr>))))))))"

text \<open>
  \<open>io_remove_fd\<close>, a \<open>void\<close> function: \<open>Ret HOUND_OK\<close> stands for its return.
\<close>

definition io_remove_fd :: "int \<Rightarrow> 'w io_state \<Rightarrow> io_result \<times> 'w io_state" where
  "io_remove_fd f st =
    (case get_fd_index st f of
       None \<Rightarrow> (Assert_failed, st)
     | Some index \<Rightarrow>
        if \<not> index < length (s_ios_ctx st) then (Out_of_bounds, st)
        else
          let st1 = io_pause_poll st;
              st2 = st1\<lparr>s_ios_fds := RM_VEC_INDEX (s_ios_fds st1) index,
                         s_ios_ctx := RM_VEC_INDEX (s_ios_ctx st1) index\<rparr>
          in (Ret HOUND_OK, io_resume_poll st2))"

text \<open>
  \<open>io_add_queue\<close>: when the push could not allocate, the function returns
  \<open>HOUND_OOM\<close> from inside the paused section.
\<close>

definition io_add_queue ::
  "'w env \<Rightarrow> int \<Rightarrow> queue \<Rightarrow> 'w io_state \<Rightarrow> io_result \<times> 'w io_state"
where
  "io_add_queue env f q st =
    (case get_fd_index st f of
       None \<Rightarrow> (Assert_failed, st)
     | Some index \<Rightarrow>
        if \<not> index < length (s_ios_ctx st) then (Out_of_bounds, st)
        else
          let st1 = io_pause_poll st; ctx = s_ios_ctx st1 ! index in
          (case xv_grow env (world st1) of (pushed, w') \<Rightarrow>
            if \<not> pushed then
              (Ret HOUND_OOM,
               st1\<lparr>world := w',
                   s_ios_ctx := (s_ios_ctx st1)
                     [index := ctx\<lparr>queues := xv_failed_queues env (queues ctx)\<rparr>]\<rparr>)
            else
              (Ret HOUND_OK,
               io_resume_poll
                 (st1\<lparr>world := w',
                     s_ios_ctx := (s_ios_ctx st1)
                       [index := ctx\<lparr>queues := queues ctx @ [q]\<rparr>]\<rparr>))))"

text \<open>The search loop of \<open>io_remove_queue\<close> from an index.\<close>

fun find_queue :: "queue list \<Rightarrow> queue \<Rightarrow> nat \<Rightarrow> nat" where
  "find_queue [] q index = index"
| "find_queue (x # xs) q index = (if x = q then index else find_queue xs q (index + 1))"

text \<open>\<open>io_remove_queue\<close>, a \<open>void\<close> function.\<close>

definition io_remove_queue :: "int \<Rightarrow> queue \<Rightarrow> 'w io_state \<Rightarrow> io_result \<times> 'w io_state" where
  "io_remove_queue f q st =
    (case get_fd_index st f of
       None \<Rightarrow> (Assert_failed, st)
     | Some i \<Rightarrow>
        if \<not> i < length (s_ios_ctx st) then (Out_of_bounds, st)
        else
          let st1 = io_pause_poll st;
              ctx = s_ios_ctx st1 ! i;
              index = find_queue (queues ctx) q 0
          in
          if index = length (queues ctx) then (Assert_failed, st1)
          else
            (Ret HOUND_OK,
             io_resume_poll
               (st1\<lparr>s_ios_ctx := (s_ios_ctx st1)
                  [i := ctx\<lparr>queues := RM_VEC_INDEX (queues ctx) index\<rparr>]\<rparr>)))"

subsection \<open>Facts about the fan-out\<close>

lemma after_parse_fanned: "fanned ctx st ctx (after_parse st pos b res w') []"
  by (simp add: fanned_def after_parse_def)

lemma parse_loop_fanned:
  "parse_loop env pos b ctx st = (r, ctx', st') \<Longrightarrow> \<exists>ws. fanned ctx st ctx' st' ws"
proof (induction b arbitrary: pos ctx st rule: less_induct)
  case (less b)
  from less.prems show ?case
  proof (cases rule: parse_loop_cases)
    case finished
    then have "fanned ctx st ctx' st' []" by (simp add: fanned_def)
    then show ?thesis ..
  next
    case (stop res w')
    then have "fanned ctx st ctx' st' []" by (simp add: fanned_def)
    then show ?thesis ..
  next
    case (again res w' ctx1 st3)
    from add_to_queues_fanned[OF again(8)] obtain ws1
      where "fanned ctx (after_parse st pos b res w') ctx1 st3 ws1" ..
    with fanned_trans[OF after_parse_fanned this]
    have a: "fanned ctx st ctx1 st3 ws1" by simp
    from less.IH[OF again(4) again(9)] obtain ws2 where "fanned ctx1 st3 ctx' st' ws2" ..
    from fanned_trans[OF a this] show ?thesis ..
  qed
qed

lemma io_read_fanned:
  assumes "io_read env f ctx st = (r, ctx', st')"
  shows "\<exists>ws. fanned ctx st ctx' st' ws"
proof -
  obtain rr w' where rd: "sys_read env (world st) f POLL_BUF_SIZE = (rr, w')"
    by (cases "sys_read env (world st) f POLL_BUF_SIZE")
  show ?thesis
  proof (cases rr)
    case (Read_ok bytes)
    define st0 where "st0 = st\<lparr>world := w', s_read_buf := take POLL_BUF_SIZE bytes @
               drop (length (take POLL_BUF_SIZE bytes)) (s_read_buf st)\<rparr>"
    from Read_ok assms rd have "parse_loop env 0 (length (take POLL_BUF_SIZE bytes)) ctx st0
        = (r, ctx', st')"
      by (simp add: io_read_def Let_def st0_def)
    from parse_loop_fanned[OF this] obtain ws where "fanned ctx st0 ctx' st' ws" ..
    then have "fanned ctx st ctx' st' ws" by (simp add: fanned_def st0_def)
    then show ?thesis ..
  next
    case (Read_err e)
    with assms rd have "fanned ctx st ctx' st' []"
      by (auto simp: io_read_def fanned_def split: if_splits)
    then show ?thesis ..
  qed
qed

subsection \<open>The records a batch delivers\<close>

text \<open>
  The outcomes of the next \<open>n\<close> calls of \<open>drv_alloc\<close>, the indices of a batch
  whose allocation succeeded and those whose allocation failed, and the wrapper
  the core makes of the record at an index as the \<open>k\<close>-th delivered record of a
  batch.
\<close>

fun alloc_outcomes :: "'w env \<Rightarrow> 'w \<Rightarrow> nat \<Rightarrow> bool list" where
  "alloc_outcomes env w 0 = []"
| "alloc_outcomes env w (Suc n) =
    (case drv_alloc env w of (ok, w') \<Rightarrow> ok # alloc_outcomes env w' n)"

definition delivered :: "nat list \<Rightarrow> bool list \<Rightarrow> nat list" where
  "delivered is oks = map fst (filter snd (zip is oks))"

definition skipped :: "nat list \<Rightarrow> bool list \<Rightarrow> nat list" where
  "skipped is oks = map fst (filter (\<lambda>p. \<not> snd p) (zip is oks))"

definition wrap :: "fdctx \<Rightarrow> hound_record list \<Rightarrow> nat \<times> nat \<Rightarrow> record_info" where
  "wrap ctx recs p =
     \<lparr>refcount = length (queues ctx),
      ri_record = (recs ! snd p)\<lparr>seqno := next_seqno ctx + of_nat (fst p),
                                  dev_id := drv_id (drv ctx)\<rparr>\<rparr>"

lemma delivered_subset: "set (delivered is oks) \<subseteq> set is"
  by (auto simp: delivered_def dest: set_zip_leftD)

lemma skipped_subset: "set (skipped is oks) \<subseteq> set is"
  by (auto simp: skipped_def dest: set_zip_leftD)

lemma add_to_queues_untouched:
  "add_to_queues env is ctx st = (ctx', st') \<Longrightarrow> j \<notin> set is \<Longrightarrow>
     s_records st' ! j = s_records st ! j"
proof (induction "is" arbitrary: ctx st)
  case Nil
  then show ?case by simp
next
  case (Cons i "is")
  obtain ok w' where a: "drv_alloc env (world st) = (ok, w')" by (cases "drv_alloc env (world st)")
  show ?case
  proof (cases ok)
    case False
    with Cons.prems a have "add_to_queues env is ctx (st\<lparr>world := w', logs := logs st @ [Log_rec_info_oom]\<rparr>) = (ctx', st')"
      by simp
    from Cons.IH[OF this] Cons.prems(2) show ?thesis by simp
  next
    case True
    define r where "r = (s_records st ! i)\<lparr>seqno := next_seqno ctx, dev_id := drv_id (drv ctx)\<rparr>"
    define ctx1 where "ctx1 = ctx\<lparr>next_seqno := next_seqno ctx + 1\<rparr>"
    define ri where "ri = \<lparr>refcount = length (queues ctx1), ri_record = r\<rparr>"
    define st1 where "st1 = st\<lparr>world := w', s_records := (s_records st)[i := r],
                 wrappers := wrappers st @ [ri],
                 pushes := queue_push_all (queues ctx1) ri (pushes st)\<rparr>"
    from Cons.prems a True have "add_to_queues env is ctx1 st1 = (ctx', st')"
      by (simp add: Let_def r_def ctx1_def ri_def st1_def)
    from Cons.IH[OF this] Cons.prems(2) show ?thesis by (simp add: st1_def)
  qed
qed

lemma map_wrap_shift:
  "map (wrap (ctx\<lparr>next_seqno := next_seqno ctx + 1\<rparr>) recs) (enumerate 0 xs) =
   map (wrap ctx recs) (enumerate (Suc 0) xs)"
  by (simp add: enumerate_Suc_eq wrap_def apfst_def map_prod_def case_prod_beta ac_simps)

lemma map_wrap_cong:
  "\<forall>j \<in> set xs. recs' ! j = recs ! j \<Longrightarrow>
   map (wrap ctx recs') (enumerate n xs) = map (wrap ctx recs) (enumerate n xs)"
  by (auto simp: wrap_def in_set_enumerate_eq)

lemma add_to_queues_outcomes:
  "add_to_queues env is ctx st = (ctx', st') \<Longrightarrow> distinct is \<Longrightarrow>
     wrappers st' = wrappers st @
        map (wrap ctx (s_records st))
          (enumerate 0 (delivered is (alloc_outcomes env (world st) (length is)))) \<and>
     logs st' = logs st @
        replicate (length (skipped is (alloc_outcomes env (world st) (length is)))) Log_rec_info_oom \<and>
     next_seqno ctx' = next_seqno ctx +
        of_nat (length (delivered is (alloc_outcomes env (world st) (length is)))) \<and>
     list_all (\<lambda>i. s_records st' ! i = s_records st ! i)
        (skipped is (alloc_outcomes env (world st) (length is)))"
proof (induction "is" arbitrary: ctx st)
  case Nil
  then show ?case by (simp add: delivered_def skipped_def)
next
  case (Cons i "is")
  obtain ok w' where a: "drv_alloc env (world st) = (ok, w')" by (cases "drv_alloc env (world st)")
  let ?oks = "alloc_outcomes env w' (length is)"
  from Cons.prems(2) have d: "distinct is" and ni: "i \<notin> set is" by simp_all
  show ?case
  proof (cases ok)
    case False
    define st1 where "st1 = st\<lparr>world := w', logs := logs st @ [Log_rec_info_oom]\<rparr>"
    from False Cons.prems a have run: "add_to_queues env is ctx st1 = (ctx', st')"
      by (simp add: st1_def)
    from Cons.IH[OF run d] have ih:
      "wrappers st' = wrappers st @ map (wrap ctx (s_records st)) (enumerate 0 (delivered is ?oks))"
      "logs st' = logs st @ Log_rec_info_oom # replicate (length (skipped is ?oks)) Log_rec_info_oom"
      "next_seqno ctx' = next_seqno ctx + of_nat (length (delivered is ?oks))"
      "list_all (\<lambda>i. s_records st' ! i = s_records st ! i) (skipped is ?oks)"
      by (simp_all add: st1_def)
    from add_to_queues_untouched[OF run ni] have "s_records st' ! i = s_records st ! i"
      by (simp add: st1_def)
    with ih a False show ?thesis
      by (simp add: delivered_def skipped_def)
  next
    case True
    define r where "r = (s_records st ! i)\<lparr>seqno := next_seqno ctx, dev_id := drv_id (drv ctx)\<rparr>"
    define ctx1 where "ctx1 = ctx\<lparr>next_seqno := next_seqno ctx + 1\<rparr>"
    define ri where "ri = \<lparr>refcount = length (queues ctx1), ri_record = r\<rparr>"
    define st1 where "st1 = st\<lparr>world := w', s_records := (s_records st)[i := r],
                 wrappers := wrappers st @ [ri],
                 pushes := queue_push_all (queues ctx1) ri (pushes st)\<rparr>"
    from Cons.prems a True have run: "add_to_queues env is ctx1 st1 = (ctx', st')"
      by (simp add: Let_def r_def ctx1_def ri_def st1_def)
    have same: "\<forall>j \<in> set is. s_records st1 ! j = s_records st ! j"
    proof
      fix j assume "j \<in> set is"
      with ni have "i \<noteq> j" by auto
      then show "s_records st1 ! j = s_records st ! j" by (simp add: st1_def)
    qed
    from Cons.IH[OF run d] have ih:
      "wrappers st' = wrappers st1 @ map (wrap ctx1 (s_records st1)) (enumerate 0 (delivered is ?oks))"
      "logs st' = logs st @ replicate (length (skipped is ?oks)) Log_rec_info_oom"
      "next_seqno ctx' = next_seqno ctx1 + of_nat (length (delivered is ?oks))"
      "list_all (\<lambda>i. s_records st' ! i = s_records st1 ! i) (skipped is ?oks)"
      by (simp_all add: st1_def)
    have "map (wrap ctx1 (s_records st1)) (enumerate 0 (delivered is ?oks)) =
          map (wrap ctx1 (s_records st)) (enumerate 0 (delivered is ?oks))"
      using same delivered_subset[of "is" ?oks] by (intro map_wrap_cong) auto
    also have "\<dots> = map (wrap ctx (s_records st)) (enumerate (Suc 0) (delivered is ?oks))"
      unfolding ctx1_def by (rule map_wrap_shift)
    finally have w: "wrappers st' = wrappers st @ wrap ctx (s_records st) (0, i) #
        map (wrap ctx (s_records st)) (enumerate (Suc 0) (delivered is ?oks))"
      using ih(1) by (simp add: st1_def ri_def r_def ctx1_def wrap_def)
    have sk: "list_all (\<lambda>i. s_records st' ! i = s_records st ! i) (skipped is ?oks)"
      using ih(4) same skipped_subset[of "is" ?oks] by (auto simp: list_all_iff)
    from w ih(2,3) sk a True show ?thesis
      by (simp add: delivered_def skipped_def ctx1_def ac_simps)
  qed
qed

subsection \<open>Successive read cycles on one fd\<close>

text \<open>
  The calls \<open>io_poll\<close> makes of \<open>io_read\<close> for one fd over successive cycles: the
  context is the one the last call left, with the queue vector as the mutators
  left it before each cycle. The cycles end when the process does.
\<close>

fun io_read_cycles ::
  "'w env \<Rightarrow> int \<Rightarrow> queue list list \<Rightarrow> fdctx \<Rightarrow> 'w io_state \<Rightarrow> fdctx \<times> 'w io_state"
where
  "io_read_cycles env f [] ctx st = (ctx, st)"
| "io_read_cycles env f (qs # qss) ctx st =
    (case io_read env f (ctx\<lparr>queues := qs\<rparr>) st of
       (Ret err, ctx', st') \<Rightarrow> io_read_cycles env f qss ctx' st'
     | (Assert_failed, ctx', st') \<Rightarrow> (ctx', st')
     | (Out_of_bounds, ctx', st') \<Rightarrow> (ctx', st'))"

lemma io_read_seqnos:
  assumes "io_read env f ctx st = (r, ctx', st')"
  shows "\<exists>ws. wrappers st' = wrappers st @ ws \<and>
           map (\<lambda>w. seqno (ri_record w)) ws = seq_from (next_seqno ctx) (length ws) \<and>
           next_seqno ctx' = next_seqno ctx + of_nat (length ws)"
proof -
  from io_read_fanned[OF assms] obtain ws where "fanned ctx st ctx' st' ws" ..
  then have "wrappers st' = wrappers st @ ws \<and>
           map (\<lambda>w. seqno (ri_record w)) ws = seq_from (next_seqno ctx) (length ws) \<and>
           next_seqno ctx' = next_seqno ctx + of_nat (length ws)"
    by (simp add: fanned_def)
  then show ?thesis ..
qed

lemma io_read_cycles_seqnos:
  "io_read_cycles env f qss ctx st = (ctx', st') \<Longrightarrow>
     \<exists>ws. wrappers st' = wrappers st @ ws \<and>
          map (\<lambda>w. seqno (ri_record w)) ws = seq_from (next_seqno ctx) (length ws) \<and>
          next_seqno ctx' = next_seqno ctx + of_nat (length ws)"
proof (induction qss arbitrary: ctx st)
  case Nil
  then show ?case by simp
next
  case (Cons qs qss)
  obtain r ctx1 st1 where rd: "io_read env f (ctx\<lparr>queues := qs\<rparr>) st = (r, ctx1, st1)"
    by (cases "io_read env f (ctx\<lparr>queues := qs\<rparr>) st")
  from io_read_seqnos[OF rd] obtain ws1 where ws1:
    "wrappers st1 = wrappers st @ ws1"
    "map (\<lambda>w. seqno (ri_record w)) ws1 = seq_from (next_seqno ctx) (length ws1)"
    "next_seqno ctx1 = next_seqno ctx + of_nat (length ws1)"
    by auto
  show ?case
  proof (cases r)
    case (Ret err)
    with Cons.prems rd have "io_read_cycles env f qss ctx1 st1 = (ctx', st')" by simp
    from Cons.IH[OF this] obtain ws2 where ws2:
      "wrappers st' = wrappers st1 @ ws2"
      "map (\<lambda>w. seqno (ri_record w)) ws2 = seq_from (next_seqno ctx1) (length ws2)"
      "next_seqno ctx' = next_seqno ctx1 + of_nat (length ws2)"
      by blast
    from ws1 ws2 have "wrappers st' = wrappers st @ (ws1 @ ws2) \<and>
          map (\<lambda>w. seqno (ri_record w)) (ws1 @ ws2) = seq_from (next_seqno ctx) (length (ws1 @ ws2)) \<and>
          next_seqno ctx' = next_seqno ctx + of_nat (length (ws1 @ ws2))"
      by (simp add: seq_from_add add.assoc)
    then show ?thesis ..
  next
    case Assert_failed
    with Cons.prems rd ws1 show ?thesis by simp
  next
    case Out_of_bounds
    with Cons.prems rd ws1 show ?thesis by simp
  qed
qed

lemma io_pause_poll_frame:
  "wrappers (io_pause_poll st) = wrappers st" "s_ios_ctx (io_pause_poll st) = s_ios_ctx st"
  "s_ios_fds (io_pause_poll st) = s_ios_fds st" "world (io_pause_poll st) = world st"
  by (simp_all add: io_pause_poll_def Let_def)

lemma io_resume_poll_frame:
  "wrappers (io_resume_poll st) = wrappers st" "s_ios_ctx (io_resume_poll st) = s_ios_ctx st"
  "s_ios_fds (io_resume_poll st) = s_ios_fds st" "world (io_resume_poll st) = world st"
  by (simp_all add: io_resume_poll_def)

lemma io_add_fd_ok:
  assumes "io_add_fd env f d st = (Ret HOUND_OK, st')"
  shows "\<exists>dv. d = Some dv \<and>
           s_ios_ctx st' = s_ios_ctx st @ [\<lparr>drv = dv, next_seqno = 0, queues = []\<rparr>] \<and>
           s_ios_fds st' = s_ios_fds st @ [\<lparr>fd = f, events = POLL_HAS_DATA, revents = 0\<rparr>] \<and>
           wrappers st' = wrappers st"
  using assms unfolding io_add_fd_def
  by (auto simp: Let_def io_pause_poll_frame io_resume_poll_frame HOUND_OK_def HOUND_OOM_def
      split: option.splits prod.splits if_splits)

lemma unat_seq_from_0: "n \<le> 2 ^ 64 \<Longrightarrow> map unat (seq_from 0 n) = [0..<n]"
  by (auto simp: seq_from_def unat_of_nat intro!: nth_equalityI)

text \<open>The wrappers pushed to a queue, in the order of the \<open>queue_push\<close> calls.\<close>

definition pushed_to :: "queue \<Rightarrow> (queue \<times> record_info) list \<Rightarrow> record_info list" where
  "pushed_to q ps = map snd (filter (\<lambda>p. fst p = q) ps)"

lemma pushed_to_append: "pushed_to q (ps @ ps') = pushed_to q ps @ pushed_to q ps'"
  by (simp add: pushed_to_def)

lemma pushed_to_one_wrapper:
  "pushed_to q (map (\<lambda>q'. (q', w)) qs) = replicate (count_list qs q) w"
  by (induction qs) (auto simp: pushed_to_def)

lemma pushed_to_fan_out:
  "count_list qs q = 1 \<Longrightarrow>
     pushed_to q (concat (map (\<lambda>w. map (\<lambda>q'. (q', w)) qs) ws)) = ws"
proof (induction ws)
  case Nil
  then show ?case by (simp add: pushed_to_def)
next
  case (Cons w ws)
  have "pushed_to q (map (\<lambda>q'. (q', w)) qs) = [w]"
    unfolding pushed_to_one_wrapper using Cons.prems by simp
  with Cons show ?case by (simp add: pushed_to_append)
qed

lemma io_read_pushed_to:
  assumes "io_read env f ctx st = (r, ctx', st')" and "count_list (queues ctx) q = 1"
  shows "pushed_to q (pushes st') =
           pushed_to q (pushes st) @ drop (length (wrappers st)) (wrappers st')"
proof -
  from io_read_fanned[OF assms(1)] obtain ws where "fanned ctx st ctx' st' ws" ..
  then have "wrappers st' = wrappers st @ ws"
    "pushes st' = pushes st @ concat (map (\<lambda>w. map (\<lambda>q. (q, w)) (queues ctx)) ws)"
    by (simp_all add: fanned_def)
  with assms(2) show ?thesis
    by (simp add: pushed_to_append pushed_to_fan_out)
qed

lemma io_read_cycles_pushed_to:
  "io_read_cycles env f qss ctx st = (ctx', st') \<Longrightarrow>
   list_all (\<lambda>qs. count_list qs q = 1) qss \<Longrightarrow>
     pushed_to q (pushes st') =
       pushed_to q (pushes st) @ drop (length (wrappers st)) (wrappers st')"
proof (induction qss arbitrary: ctx st)
  case Nil
  then show ?case by simp
next
  case (Cons qs qss)
  obtain r ctx1 st1 where rd: "io_read env f (ctx\<lparr>queues := qs\<rparr>) st = (r, ctx1, st1)"
    by (cases "io_read env f (ctx\<lparr>queues := qs\<rparr>) st")
  from Cons.prems(2) have q1: "count_list (queues (ctx\<lparr>queues := qs\<rparr>)) q = 1"
    and rest: "list_all (\<lambda>qs. count_list qs q = 1) qss" by simp_all
  note p1 = io_read_pushed_to[OF rd q1]
  from io_read_seqnos[OF rd] obtain ws1 where w1: "wrappers st1 = wrappers st @ ws1" by blast
  show ?case
  proof (cases r)
    case (Ret err)
    with Cons.prems rd have c: "io_read_cycles env f qss ctx1 st1 = (ctx', st')" by simp
    from io_read_cycles_seqnos[OF c] obtain ws2 where w2: "wrappers st' = wrappers st1 @ ws2"
      by blast
    from Cons.IH[OF c rest] p1 w1 w2 show ?thesis by simp
  next
    case Assert_failed
    with Cons.prems rd p1 show ?thesis by simp
  next
    case Out_of_bounds
    with Cons.prems rd p1 show ?thesis by simp
  qed
qed

lemma io_add_fd_ok_pushes:
  assumes "io_add_fd env f d st = (Ret HOUND_OK, st')"
  shows "pushes st' = pushes st"
  using assms unfolding io_add_fd_def
  by (auto simp: Let_def io_pause_poll_def io_resume_poll_def HOUND_OK_def HOUND_OOM_def
      split: option.splits prod.splits if_splits)

subsection \<open>The parse calls of a read cycle\<close>

text \<open>
  A sequence of \<open>drv_op_parse\<close> calls is chained from an offset and a byte
  count when each call is made at the offset the last one ended at, with the bytes
  the last one left: the first call gets the given offset and a positive count,
  and every call that has a successor returned \<open>HOUND_OK\<close> and left fewer bytes
  than it got, the successor starting behind the bytes it consumed.

  The sequence has stopped by the loop's own conditions when there was no call
  because there were no bytes, or its last call returned \<open>HOUND_OK\<close> and left the
  byte count unchanged or zero.
\<close>

fun chained :: "nat \<Rightarrow> nat \<Rightarrow> parse_call list \<Rightarrow> bool" where
  "chained pos b [] = True"
| "chained pos b (c # cs) =
    (pc_pos c = pos \<and> pc_bytes c = b \<and> 0 < b \<and>
     (cs = [] \<or>
      (pc_err c = HOUND_OK \<and> pc_left c < b \<and>
       chained (pos + (b - pc_left c)) (pc_left c) cs)))"

definition stopped :: "nat \<Rightarrow> parse_call list \<Rightarrow> bool" where
  "stopped b cs =
    (if cs = [] then b = 0
     else pc_err (last cs) = HOUND_OK \<and>
          (pc_left (last cs) = pc_bytes (last cs) \<or> pc_left (last cs) = 0))"

text \<open>The record ceiling of the spec's ABI constants: \<open>MAX_RECORDS_PER_CALL = 1000\<close>.\<close>

definition MAX_RECORDS_PER_CALL :: nat where "MAX_RECORDS_PER_CALL = 1000"

lemma parse_loop_calls:
  "parse_loop env pos b ctx st = (r, ctx', st') \<Longrightarrow>
     \<exists>cs. parse_calls st' = parse_calls st @ cs \<and> chained pos b cs \<and>
          (r = Ret HOUND_OK \<longrightarrow> stopped b cs) \<and>
          list_all (\<lambda>c. pc_capacity c = length (s_records st)) cs"
proof (induction b arbitrary: pos ctx st rule: less_induct)
  case (less b)
  from less.prems show ?case
  proof (cases rule: parse_loop_cases)
    case finished
    then have "parse_calls st' = parse_calls st @ [] \<and> chained pos b [] \<and>
          (r = Ret HOUND_OK \<longrightarrow> stopped b []) \<and>
          list_all (\<lambda>c. pc_capacity c = length (s_records st)) []"
      by (simp add: stopped_def)
    then show ?thesis ..
  next
    case (stop res w')
    let ?c = "\<lparr>pc_pos = pos, pc_bytes = b, pc_capacity = length (s_records st),
            pc_err = p_err res, pc_left = p_bytes res\<rparr>"
    from stop have "parse_calls st' = parse_calls st @ [?c] \<and> chained pos b [?c] \<and>
          (r = Ret HOUND_OK \<longrightarrow> stopped b [?c]) \<and>
          list_all (\<lambda>c. pc_capacity c = length (s_records st)) [?c]"
      by (simp add: stopped_def)
    then show ?thesis ..
  next
    case (again res w' ctx1 st3)
    let ?c = "\<lparr>pc_pos = pos, pc_bytes = b, pc_capacity = length (s_records st),
            pc_err = p_err res, pc_left = p_bytes res\<rparr>"
    from add_to_queues_statics[OF again(8)] after_parse_statics[OF again(7)]
    have s3: "parse_calls st3 = parse_calls st @ [?c]" "length (s_records st3) = length (s_records st)"
      by (simp_all add: same_statics_def after_parse_def)
    from less.IH[OF again(4) again(9)] obtain cs where cs:
      "parse_calls st' = parse_calls st3 @ cs"
      "chained (pos + (b - p_bytes res)) (p_bytes res) cs"
      "r = Ret HOUND_OK \<longrightarrow> stopped (p_bytes res) cs"
      "list_all (\<lambda>c. pc_capacity c = length (s_records st3)) cs"
      by blast
    have "stopped b (?c # cs)" if "stopped (p_bytes res) cs"
      using that again(3) by (auto simp: stopped_def split: if_splits)
    with cs s3 again(1,3,4)
    have "parse_calls st' = parse_calls st @ (?c # cs) \<and> chained pos b (?c # cs) \<and>
          (r = Ret HOUND_OK \<longrightarrow> stopped b (?c # cs)) \<and>
          list_all (\<lambda>c. pc_capacity c = length (s_records st)) (?c # cs)"
      by simp
    then show ?thesis ..
  qed
qed

lemma io_read_capacity:
  assumes "io_read env f ctx st = (r, ctx', st')"
  shows "list_all (\<lambda>c. pc_capacity c = length (s_records st))
           (drop (length (parse_calls st)) (parse_calls st'))"
proof -
  obtain rr w' where rd: "sys_read env (world st) f POLL_BUF_SIZE = (rr, w')"
    by (cases "sys_read env (world st) f POLL_BUF_SIZE")
  show ?thesis
  proof (cases rr)
    case (Read_ok bytes)
    define st0 where "st0 = st\<lparr>world := w', s_read_buf := take POLL_BUF_SIZE bytes @
               drop (length (take POLL_BUF_SIZE bytes)) (s_read_buf st)\<rparr>"
    from Read_ok assms rd
    have "parse_loop env 0 (length (take POLL_BUF_SIZE bytes)) ctx st0 = (r, ctx', st')"
      by (simp add: io_read_def Let_def st0_def)
    from parse_loop_calls[OF this] obtain cs where
      "parse_calls st' = parse_calls st0 @ cs"
      "list_all (\<lambda>c. pc_capacity c = length (s_records st0)) cs"
      by blast
    then show ?thesis by (simp add: st0_def)
  next
    case (Read_err e)
    with assms rd show ?thesis by (auto simp: io_read_def split: if_splits)
  qed
qed

subsection \<open>Facts about the event loop and the mutators\<close>

declare read_fds.simps [simp del]

lemma parse_loop_failed:
  "parse_loop env pos b ctx st = (Ret e, ctx', st') \<Longrightarrow> e \<noteq> HOUND_OK \<Longrightarrow>
     \<exists>n. logs st' \<noteq> [] \<and> last (logs st') = Log_parse_failed e n (drv ctx) \<and>
         parse_calls st' \<noteq> [] \<and> pc_err (last (parse_calls st')) = e"
proof (induction b arbitrary: pos ctx st rule: less_induct)
  case (less b)
  from less.prems(1) show ?case
  proof (cases rule: parse_loop_cases)
    case finished
    with less.prems(2) show ?thesis by simp
  next
    case (stop res w')
    from stop(9) less.prems(2) have "p_err res = e"
      "logs st' = logs st @ [Log_parse_failed e b (drv ctx)]" by simp_all
    with stop(7) show ?thesis by simp
  next
    case (again res w' ctx1 st3)
    from add_to_queues_fanned[OF again(8)] have "drv ctx1 = drv ctx"
      by (auto simp: fanned_def)
    with less.IH[OF again(4) again(9) less.prems(2)] show ?thesis by simp
  qed
qed

lemma io_read_parse_failed:
  assumes "sys_read env (world st) f POLL_BUF_SIZE = (Read_ok bytes, w')"
    and "io_read env f ctx st = (Ret e, ctx', st')" and "e \<noteq> HOUND_OK"
  shows "\<exists>n. logs st' \<noteq> [] \<and> last (logs st') = Log_parse_failed e n (drv ctx) \<and>
         parse_calls st' \<noteq> [] \<and> pc_err (last (parse_calls st')) = e"
proof -
  define st0 where "st0 = st\<lparr>world := w', s_read_buf := take POLL_BUF_SIZE bytes @
               drop (length (take POLL_BUF_SIZE bytes)) (s_read_buf st)\<rparr>"
  from assms have "parse_loop env 0 (length (take POLL_BUF_SIZE bytes)) ctx st0 = (Ret e, ctx', st')"
    by (simp add: io_read_def Let_def st0_def)
  from parse_loop_failed[OF this assms(3)] show ?thesis .
qed

lemma io_pause_poll_barrier:
  "barrier (io_pause_poll st) = barrier st @ [Pause]"
  "s_poll_active_current st \<Longrightarrow> \<not> s_poll_active_target (io_pause_poll st)"
  "\<not> s_poll_active_current (io_pause_poll st)"
  by (simp_all add: io_pause_poll_def Let_def)

lemma io_resume_poll_barrier:
  "barrier (io_resume_poll st) = barrier st @ [Resume]"
  "s_poll_active_target (io_resume_poll st)"
  by (simp_all add: io_resume_poll_def)

lemma io_add_fd_barrier:
  assumes "io_add_fd env f d st = (Ret e, st')"
  shows "barrier st' = barrier st @ [Pause, Resume] \<and> s_poll_active_target st'"
  using assms unfolding io_add_fd_def
  by (auto simp: Let_def io_pause_poll_def io_resume_poll_def
      split: option.splits prod.splits if_splits)

lemma io_add_fd_rollback:
  assumes "io_add_fd env f d st = (Ret e, st')" and "e \<noteq> HOUND_OK"
  shows "e = HOUND_OOM \<and>
         (s_ios_fds st' = s_ios_fds st \<or> s_ios_fds st' = xv_failed_fds env (s_ios_fds st))"
  using assms unfolding io_add_fd_def
  by (auto simp: Let_def io_pause_poll_def io_resume_poll_def
      split: option.splits prod.splits if_splits)

lemma io_remove_fd_barrier:
  assumes "io_remove_fd f st = (Ret e, st')"
  shows "barrier st' = barrier st @ [Pause, Resume] \<and> s_poll_active_target st'"
  using assms unfolding io_remove_fd_def
  by (auto simp: Let_def io_pause_poll_def io_resume_poll_def
      split: option.splits if_splits)

lemma io_remove_queue_barrier:
  assumes "io_remove_queue f q st = (Ret e, st')"
  shows "barrier st' = barrier st @ [Pause, Resume] \<and> s_poll_active_target st'"
  using assms unfolding io_remove_queue_def
  by (auto simp: Let_def io_pause_poll_def io_resume_poll_def
      split: option.splits if_splits)

lemma io_add_queue_barrier:
  assumes "io_add_queue env f q st = (Ret e, st')"
  shows "if e = HOUND_OK
         then barrier st' = barrier st @ [Pause, Resume] \<and> s_poll_active_target st'
         else e = HOUND_OOM \<and> barrier st' = barrier st @ [Pause] \<and>
              (s_poll_active_current st \<longrightarrow> \<not> s_poll_active_target st')"
  using assms unfolding io_add_queue_def
  by (auto simp: Let_def io_pause_poll_def io_resume_poll_def HOUND_OK_def HOUND_OOM_def
      split: option.splits prod.splits if_splits)

lemma io_poll_cycle_eintr:
  assumes "io_wait_for_ready st = Some st0"
    and "sys_ppoll env (world st0) (s_ios_fds st0) = (pr, w')"
    and "pr_ret pr = - 1" and "pr_errno pr = EINTR"
  shows "io_poll_cycle env st = (Next_cycle, st0\<lparr>world := w'\<rparr>)"
  using assms by (simp add: io_poll_cycle_def Let_def)

lemma io_poll_cycle_error:
  assumes "io_wait_for_ready st = Some st0"
    and "sys_ppoll env (world st0) (s_ios_fds st0) = (pr, w')"
    and "pr_ret pr = - 1" and "pr_errno pr \<noteq> EINTR"
  shows "fst (io_poll_cycle env st) = Terminated"
  using assms by (simp add: io_poll_cycle_def Let_def)

section \<open>Schema parsing (schema.c)\<close>

text \<open>
  A YAML node as libyaml hands it to schema.c, with the node ids of a sequence's
  items and of a mapping's keys and values resolved: a scalar with its value, a
  sequence, or a mapping. The input file is the list of its documents' root nodes.
\<close>

datatype yaml_node =
    Scalar string
  | Sequence "yaml_node list"
  | Mapping "(yaml_node \<times> yaml_node) list"

text \<open>The units of the \<open>unit_strs\<close> table of \<open>find_unit\<close>.\<close>

datatype hound_unit =
    HOUND_UNIT_DEGREE | HOUND_UNIT_KELVIN | HOUND_UNIT_KG_PER_S | HOUND_UNIT_LATITUDE
  | HOUND_UNIT_LONGITUDE | HOUND_UNIT_METER | HOUND_UNIT_METERS_PER_S
  | HOUND_UNIT_METERS_PER_S_SQUARED | HOUND_UNIT_NONE | HOUND_UNIT_PASCAL
  | HOUND_UNIT_PERCENT | HOUND_UNIT_RAD | HOUND_UNIT_RAD_PER_S | HOUND_UNIT_NANOSECOND

text \<open>
  \<open>struct hound_data_fmt\<close> and \<open>struct schema_desc\<close>. A pointer is \<open>None\<close> when
  it is NULL and an address otherwise.
\<close>

record hound_data_fmt =
  fmt_name :: "nat option"
  fmt_unit :: hound_unit
  fmt_offset :: nat
  fmt_size :: nat
  fmt_type :: nat

record schema_desc =
  sd_data_id :: nat
  sd_name :: "nat option"
  sd_fmt_count :: nat
  sd_fmts :: "nat option"

text \<open>
  The heap: the addresses of the blocks allocated and not yet freed, the next
  fresh address, the outcomes of the coming allocations (every allocation
  succeeds once the script is used up), and the contents of the format arrays and
  descriptor arrays stored at an address.
\<close>

record heap =
  live :: "nat list"
  next_addr :: nat
  script :: "bool list"
  fmt_arrays :: "nat \<rightharpoonup> hound_data_fmt list"
  desc_arrays :: "nat \<rightharpoonup> schema_desc list"

text \<open>
  How a call ends when it does not return: a failed \<open>XASSERT\<close>, a read through
  a NULL pointer, a read outside an array, or \<open>free\<close> of a block that is not
  allocated.
\<close>

datatype crash = Assert_fail | Null_deref | Bad_index | Bad_free

text \<open>
  What schema.c uses and the sources do not define: \<open>strtoul\<close> with base 0
  (\<open>None\<close> when it sets errno), \<open>parse_type\<close> of parse/common.h (\<open>None\<close> when it
  asserts), and what an xlib vector holds after a push that could not allocate.
\<close>

record schema_env =
  strtoul :: "string \<Rightarrow> nat option"
  parse_type :: "string \<Rightarrow> nat option"
  xv_failed_descs :: "schema_desc list \<Rightarrow> schema_desc list"

definition MAX_FMT_ENTRIES :: nat where "MAX_FMT_ENTRIES = 100"

definition UINT32_MAX :: nat where "UINT32_MAX = 2 ^ 32 - 1"

text \<open>
  The outcome of the next allocation; \<open>alloc\<close> is \<open>malloc\<close>, \<open>strdup\<close>,
  \<open>drv_alloc\<close> and \<open>drv_strdup\<close>; \<open>free\<close> is \<open>free\<close> and \<open>drv_free\<close>, with
  \<open>free(NULL)\<close> doing nothing.
\<close>

definition next_outcome :: "heap \<Rightarrow> bool \<times> heap" where
  "next_outcome h =
    (case script h of [] \<Rightarrow> (True, h) | ok # rest \<Rightarrow> (ok, h\<lparr>script := rest\<rparr>))"

definition alloc :: "heap \<Rightarrow> nat option \<times> heap" where
  "alloc h =
    (case next_outcome h of (ok, h') \<Rightarrow>
      if ok then
        (Some (next_addr h'),
         h'\<lparr>live := live h' @ [next_addr h'], next_addr := Suc (next_addr h')\<rparr>)
      else (None, h'))"

definition free :: "nat option \<Rightarrow> heap \<Rightarrow> crash + heap" where
  "free p h =
    (case p of
       None \<Rightarrow> Inr h
     | Some a \<Rightarrow>
        if a \<in> set (live h) then Inr (h\<lparr>live := removeAll a (live h)\<rparr>) else Inl Bad_free)"

text \<open>
  \<open>destroy_desc_fmts\<close>: the loop that frees the name of each of the first
  \<open>count\<close> entries, read through \<open>fmts\<close>, and then \<open>free(fmts)\<close>.
\<close>

function free_names :: "hound_data_fmt list \<Rightarrow> nat \<Rightarrow> nat \<Rightarrow> heap \<Rightarrow> crash + heap" where
  "free_names fmts i count h =
    (if i < count then
       (if \<not> i < length fmts then Inl Bad_index
        else
          (case free (fmt_name (fmts ! i)) h of
             Inl c \<Rightarrow> Inl c
           | Inr h' \<Rightarrow> free_names fmts (i + 1) count h'))
     else Inr h)"
  by pat_completeness auto
termination
  by (relation "measure (\<lambda>(fmts, i, count, h). count - i)") auto

definition destroy_desc_fmts :: "nat \<Rightarrow> nat option \<Rightarrow> heap \<Rightarrow> crash + heap" where
  "destroy_desc_fmts count fmts h =
    (if count = 0 then free fmts h
     else
       (case fmts of
          None \<Rightarrow> Inl Null_deref
        | Some a \<Rightarrow>
           (case fmt_arrays h a of
              None \<Rightarrow> Inl Bad_index
            | Some arr \<Rightarrow>
               (case free_names arr 0 count h of
                  Inl c \<Rightarrow> Inl c
                | Inr h' \<Rightarrow> free fmts h'))))"

definition destroy_schema_desc :: "schema_desc \<Rightarrow> heap \<Rightarrow> crash + heap" where
  "destroy_schema_desc desc h =
    (case free (sd_name desc) h of
       Inl c \<Rightarrow> Inl c
     | Inr h' \<Rightarrow> destroy_desc_fmts (sd_fmt_count desc) (sd_fmts desc) h')"

text \<open>
  \<open>parse_num\<close>; \<open>None\<close> is a failed \<open>XASSERT_OK(errno)\<close> or
  \<open>XASSERT_LTE(num, UINT32_MAX)\<close>.
\<close>

definition parse_num :: "schema_env \<Rightarrow> string \<Rightarrow> nat option" where
  "parse_num env s =
    (case strtoul env s of
       None \<Rightarrow> None
     | Some num \<Rightarrow> if \<not> num \<le> UINT32_MAX then None else Some num)"

text \<open>\<open>find_unit\<close>; \<open>None\<close> is the \<open>XASSERT_ERROR\<close> for an unknown unit.\<close>

definition unit_strs :: "(string \<times> hound_unit) list" where
  "unit_strs =
    [(''degree'', HOUND_UNIT_DEGREE), (''K'', HOUND_UNIT_KELVIN),
     (''kg/s'', HOUND_UNIT_KG_PER_S), (''lat'', HOUND_UNIT_LATITUDE),
     (''lng'', HOUND_UNIT_LONGITUDE), (''m'', HOUND_UNIT_METER),
     (''m/s'', HOUND_UNIT_METERS_PER_S), (''m/s^2'', HOUND_UNIT_METERS_PER_S_SQUARED),
     (''none'', HOUND_UNIT_NONE), (''Pa'', HOUND_UNIT_PASCAL),
     (''percent'', HOUND_UNIT_PERCENT), (''rad'', HOUND_UNIT_RAD),
     (''rad/s'', HOUND_UNIT_RAD_PER_S), (''ns'', HOUND_UNIT_NANOSECOND)]"

fun find_unit_from :: "(string \<times> hound_unit) list \<Rightarrow> string \<Rightarrow> hound_unit option" where
  "find_unit_from [] val = None"
| "find_unit_from ((str, u) # rest) val = (if val = str then Some u else find_unit_from rest val)"

definition find_unit :: "string \<Rightarrow> hound_unit option" where
  "find_unit val = find_unit_from unit_strs val"

text \<open>
  \<open>parse_fmt\<close> over the pairs of a format mapping, filling in \<open>fmt\<close>. A failed
  \<open>drv_strdup\<close> of the name leaves NULL in the entry and returns \<open>HOUND_OOM\<close>.
\<close>

fun parse_fmt ::
  "schema_env \<Rightarrow> (yaml_node \<times> yaml_node) list \<Rightarrow> hound_data_fmt \<Rightarrow> heap \<Rightarrow>
     crash + (hound_err \<times> hound_data_fmt \<times> heap)"
where
  "parse_fmt env [] fmt h = Inr (HOUND_OK, fmt, h)"
| "parse_fmt env ((key, val) # pairs) fmt h =
    (case key of
       Scalar key_str \<Rightarrow>
        (case val of
           Scalar value_str \<Rightarrow>
            if \<not> length value_str > 0 then Inl Assert_fail
            else if key_str = ''name'' then
              (case alloc h of (name, h') \<Rightarrow>
                (case name of
                   None \<Rightarrow> Inr (HOUND_OOM, fmt\<lparr>fmt_name := None\<rparr>, h')
                 | Some a \<Rightarrow> parse_fmt env pairs (fmt\<lparr>fmt_name := Some a\<rparr>) h'))
            else if key_str = ''unit'' then
              (case find_unit value_str of
                 None \<Rightarrow> Inl Assert_fail
               | Some u \<Rightarrow> parse_fmt env pairs (fmt\<lparr>fmt_unit := u\<rparr>) h)
            else if key_str = ''type'' then
              (case parse_type env value_str of
                 None \<Rightarrow> Inl Assert_fail
               | Some t \<Rightarrow> parse_fmt env pairs (fmt\<lparr>fmt_type := t\<rparr>) h)
            else if key_str = ''size'' then
              (case parse_num env value_str of
                 None \<Rightarrow> Inl Assert_fail
               | Some n \<Rightarrow> parse_fmt env pairs (fmt\<lparr>fmt_size := n\<rparr>) h)
            else Inl Assert_fail
         | Sequence xs \<Rightarrow> Inl Assert_fail
         | Mapping xs \<Rightarrow> Inl Assert_fail)
     | Sequence xs \<Rightarrow> Inl Assert_fail
     | Mapping xs \<Rightarrow> Inl Assert_fail)"

text \<open>
  What an entry of the array \<open>parse_fmts\<close> allocates holds before \<open>parse_fmt\<close>
  fills it in. \<open>malloc\<close> leaves it indeterminate; here it is NULL and zeros.
\<close>

definition blank_fmt :: hound_data_fmt where
  "blank_fmt = \<lparr>fmt_name = None, fmt_unit = HOUND_UNIT_DEGREE, fmt_offset = 0, fmt_size = 0,
                fmt_type = 0\<rparr>"

text \<open>
  The loop of \<open>parse_fmts\<close> over the items from index \<open>i\<close>, storing each entry in
  the array at address \<open>a\<close>; it returns the error with the index it stopped at.
\<close>

fun parse_fmts_items ::
  "schema_env \<Rightarrow> yaml_node list \<Rightarrow> nat \<Rightarrow> nat \<Rightarrow> heap \<Rightarrow> crash + (hound_err \<times> nat \<times> heap)"
where
  "parse_fmts_items env [] i a h = Inr (HOUND_OK, i, h)"
| "parse_fmts_items env (item # items) i a h =
    (case item of
       Mapping pairs \<Rightarrow>
        (case fmt_arrays h a of
           None \<Rightarrow> Inl Bad_index
         | Some arr \<Rightarrow>
            if \<not> i < length arr then Inl Bad_index
            else
              (case parse_fmt env pairs (arr ! i) h of
                 Inl c \<Rightarrow> Inl c
               | Inr (err, fmt, h') \<Rightarrow>
                  let h'' = h'\<lparr>fmt_arrays := (fmt_arrays h')(a \<mapsto> arr[i := fmt])\<rparr> in
                  if err \<noteq> HOUND_OK then Inr (err, i, h'')
                  else parse_fmts_items env items (i + 1) a h''))
     | Scalar s \<Rightarrow> Inl Assert_fail
     | Sequence xs \<Rightarrow> Inl Assert_fail)"

text \<open>
  \<open>parse_fmts\<close>, writing \<open>desc->fmt_count\<close> and \<open>desc->fmts\<close> through its out
  parameters: on an error of \<open>parse_fmt\<close> it stores the index in \<open>*out_count\<close> and
  returns; only at the end does it store the count and the array.
\<close>

definition parse_fmts ::
  "schema_env \<Rightarrow> yaml_node \<Rightarrow> schema_desc \<Rightarrow> heap \<Rightarrow> crash + (hound_err \<times> schema_desc \<times> heap)"
where
  "parse_fmts env node desc h =
    (case node of
       Sequence items \<Rightarrow>
        let fmt_count = length items in
        if \<not> fmt_count \<ge> 1 then Inl Assert_fail
        else if \<not> fmt_count \<le> MAX_FMT_ENTRIES then Inl Assert_fail
        else
          (case alloc h of (fmts, h') \<Rightarrow>
            (case fmts of
               None \<Rightarrow> Inr (HOUND_OOM, desc, h')
             | Some a \<Rightarrow>
                (case parse_fmts_items env items 0 a
                        (h'\<lparr>fmt_arrays := (fmt_arrays h')(a \<mapsto> replicate fmt_count blank_fmt)\<rparr>)
                 of
                   Inl c \<Rightarrow> Inl c
                 | Inr (err, i, h'') \<Rightarrow>
                    if err \<noteq> HOUND_OK then Inr (err, desc\<lparr>sd_fmt_count := i\<rparr>, h'')
                    else Inr (HOUND_OK, desc\<lparr>sd_fmt_count := fmt_count, sd_fmts := Some a\<rparr>, h''))))
     | Scalar s \<Rightarrow> Inl Assert_fail
     | Mapping xs \<Rightarrow> Inl Assert_fail)"

text \<open>\<open>parse_doc\<close> over the pairs of a document's root mapping.\<close>

fun parse_doc ::
  "schema_env \<Rightarrow> (yaml_node \<times> yaml_node) list \<Rightarrow> schema_desc \<Rightarrow> heap \<Rightarrow>
     crash + (hound_err \<times> schema_desc \<times> heap)"
where
  "parse_doc env [] desc h = Inr (HOUND_OK, desc, h)"
| "parse_doc env ((key, val) # pairs) desc h =
    (case key of
       Scalar key_str \<Rightarrow>
        if key_str = ''id'' then
          (case val of
             Scalar value_str \<Rightarrow>
              if \<not> length value_str > 0 then Inl Assert_fail
              else
                (case parse_num env value_str of
                   None \<Rightarrow> Inl Assert_fail
                 | Some n \<Rightarrow> parse_doc env pairs (desc\<lparr>sd_data_id := n\<rparr>) h)
           | Sequence xs \<Rightarrow> Inl Assert_fail
           | Mapping xs \<Rightarrow> Inl Assert_fail)
        else if key_str = ''name'' then
          (case val of
             Scalar value_str \<Rightarrow>
              (case alloc h of (name, h') \<Rightarrow>
                (case name of
                   None \<Rightarrow> Inr (HOUND_OOM, desc\<lparr>sd_name := None\<rparr>, h')
                 | Some a \<Rightarrow> parse_doc env pairs (desc\<lparr>sd_name := Some a\<rparr>) h'))
           | Sequence xs \<Rightarrow> Inl Assert_fail
           | Mapping xs \<Rightarrow> Inl Assert_fail)
        else if key_str = ''fmt'' then
          (case parse_fmts env val desc h of
             Inl c \<Rightarrow> Inl c
           | Inr (err, desc', h') \<Rightarrow>
              if err \<noteq> HOUND_OK then Inr (err, desc', h')
              else parse_doc env pairs desc' h')
        else Inl Assert_fail
     | Sequence xs \<Rightarrow> Inl Assert_fail
     | Mapping xs \<Rightarrow> Inl Assert_fail)"

text \<open>
  The \<open>while (true)\<close> loop of \<open>parse\<close> over the documents of the stream: each
  gets a descriptor pushed onto \<open>descs\<close> with its pointers set to NULL, which
  \<open>parse_doc\<close> fills in; the loop ends with the first error.
\<close>

fun parse_docs ::
  "schema_env \<Rightarrow> yaml_node list \<Rightarrow> schema_desc list \<Rightarrow> heap \<Rightarrow>
     crash + (hound_err \<times> schema_desc list \<times> heap)"
where
  "parse_docs env [] descs h = Inr (HOUND_OK, descs, h)"
| "parse_docs env (node # nodes) descs h =
    (case next_outcome h of (pushed, h0) \<Rightarrow>
      if \<not> pushed then Inr (HOUND_OOM, xv_failed_descs env descs, h0)
      else
        let desc = \<lparr>sd_data_id = 0, sd_name = None, sd_fmt_count = 0, sd_fmts = None\<rparr> in
        (case node of
           Mapping pairs \<Rightarrow>
            (case parse_doc env pairs desc h0 of
               Inl c \<Rightarrow> Inl c
             | Inr (err, desc', h') \<Rightarrow>
                if err \<noteq> HOUND_OK then Inr (err, descs @ [desc'], h')
                else parse_docs env nodes (descs @ [desc']) h')
         | Scalar s \<Rightarrow> Inl Assert_fail
         | Sequence xs \<Rightarrow> Inl Assert_fail))"

text \<open>The cleanup loop of \<open>parse\<close>: \<open>destroy_schema_desc\<close> on every descriptor.\<close>

fun destroy_all :: "schema_desc list \<Rightarrow> heap \<Rightarrow> crash + heap" where
  "destroy_all [] h = Inr h"
| "destroy_all (desc # descs) h =
    (case destroy_schema_desc desc h of
       Inl c \<Rightarrow> Inl c
     | Inr h' \<Rightarrow> destroy_all descs h')"

text \<open>
  What \<open>parse\<close> returns and what it stored through \<open>out_desc_count\<close> and
  \<open>out_descs\<close> (\<open>None\<close> when it did not write them).
\<close>

record parse_out =
  po_err :: hound_err
  out_desc_count :: "nat option"
  out_descs :: "nat option option"

definition parse ::
  "schema_env \<Rightarrow> yaml_node list \<Rightarrow> heap \<Rightarrow> crash + (parse_out \<times> heap)"
where
  "parse env file h =
    (case next_outcome h of (initialized, h0) \<Rightarrow>
      if \<not> initialized then
        Inr (\<lparr>po_err = HOUND_OOM, out_desc_count = None, out_descs = None\<rparr>, h0)
      else
        (case parse_docs env file [] h0 of
           Inl c \<Rightarrow> Inl c
         | Inr (err, descs, h1) \<Rightarrow>
            if err = HOUND_OK then
              (case alloc h1 of (p, h2) \<Rightarrow>
                (case p of
                   None \<Rightarrow>
                    (case destroy_all descs h2 of
                       Inl c \<Rightarrow> Inl c
                     | Inr h3 \<Rightarrow>
                        Inr (\<lparr>po_err = HOUND_OOM, out_desc_count = None,
                              out_descs = Some None\<rparr>, h3))
                 | Some a \<Rightarrow>
                    Inr (\<lparr>po_err = HOUND_OK, out_desc_count = Some (length descs),
                          out_descs = Some (Some a)\<rparr>,
                         h2\<lparr>desc_arrays := (desc_arrays h2)(a \<mapsto> descs)\<rparr>)))
            else
              (case destroy_all descs h1 of
                 Inl c \<Rightarrow> Inl c
               | Inr h3 \<Rightarrow>
                  Inr (\<lparr>po_err = err, out_desc_count = None, out_descs = None\<rparr>, h3))))"

section \<open>An example environment\<close>

text \<open>
  A concrete world for running the model: the world is the script of the coming
  allocation outcomes (every allocation succeeds once the script is used up),
  every \<open>read\<close> delivers five bytes, and \<open>parse\<close> consumes two bytes and
  stores one record, whose data id is the buffer offset it was called at, as long
  as it is given two bytes, and otherwise leaves the byte count as it is. The
  driver with id 1 returns the given error; \<open>ppoll\<close> answers with the given
  result.
\<close>

definition rec0 :: hound_record where
  "rec0 = \<lparr>seqno = 0, data_id = 7, dev_id = 0, timestamp = (0, 0), rec_size = 0, data = 0\<rparr>"

definition script_alloc :: "bool list \<Rightarrow> bool \<times> bool list" where
  "script_alloc w = (case w of [] \<Rightarrow> (True, []) | ok # w' \<Rightarrow> (ok, w'))"

definition demo_env :: "hound_err \<Rightarrow> poll_result \<Rightarrow> bool list env" where
  "demo_env perr pr =
    \<lparr>sys_read = (\<lambda>w f cap. (Read_ok [1, 2, 3, 4, 5], w)),
     drv_op_parse = (\<lambda>w d buf pos b recs.
        (\<lparr>p_err = (if drv_id d = 1 then perr else HOUND_OK),
          p_bytes = (if b < 2 then b else b - 2),
          p_records = (if b < 2 then [] else [rec0\<lparr>data_id := of_nat pos\<rparr>]),
          p_count = (if b < 2 then 0 else 1)\<rparr>, w)),
     drv_alloc = script_alloc,
     sys_malloc = script_alloc,
     sys_ppoll = (\<lambda>w pfds. (pr, w)),
     fcntl_getfl = (\<lambda>w f. (0, w)),
     fcntl_setfl = (\<lambda>w f fl. (0, w)),
     xv_grow = script_alloc,
     xv_failed_fds = (\<lambda>v. v),
     xv_failed_ctx = (\<lambda>v. v),
     xv_failed_queues = (\<lambda>v. v)\<rparr>"

definition demo_state :: "bool list \<Rightarrow> bool list io_state" where
  "demo_state w =
    \<lparr>s_ios_ctx = [\<lparr>drv = \<lparr>drv_ptr = 1, drv_id = 1\<rparr>, next_seqno = 0, queues = [10, 11]\<rparr>,
                  \<lparr>drv = \<lparr>drv_ptr = 2, drv_id = 2\<rparr>, next_seqno = 5, queues = [12]\<rparr>],
     s_ios_fds = [\<lparr>fd = 3, events = POLL_HAS_DATA, revents = 0\<rparr>,
                  \<lparr>fd = 4, events = POLL_HAS_DATA, revents = 0\<rparr>],
     s_poll_active_target = True,
     s_poll_active_current = True,
     s_read_buf = [0, 0, 0, 0, 0, 0],
     s_records = [rec0, rec0\<lparr>data_id := 8\<rparr>, rec0\<lparr>data_id := 9\<rparr>],
     world = w,
     wrappers = [],
     pushes = [],
     logs = [],
     parse_calls = [],
     barrier = []\<rparr>"

definition demo_ctx :: fdctx where
  "demo_ctx = \<lparr>drv = \<lparr>drv_ptr = 2, drv_id = 2\<rparr>, next_seqno = 5, queues = [12, 13]\<rparr>"

definition pr_none :: poll_result where
  "pr_none = \<lparr>pr_ret = - 1, pr_errno = ENOMEM, pr_revents = (\<lambda>k. 0)\<rparr>"

lemmas demo_defs = io_read_def demo_env_def demo_state_def demo_ctx_def POLL_BUF_SIZE_def
      parse_loop.simps script_alloc_def HOUND_OK_def Let_def rec0_def queue_push_all_eq

definition demo_drv :: driver where "demo_drv = \<lparr>drv_ptr = 3, drv_id = 3\<rparr>"

lemmas demo_add_defs = io_add_fd_def io_pause_poll_def io_resume_poll_def O_NONBLOCK_def
  HOUND_OOM_def demo_drv_def

definition demo_added :: "bool list io_state" where
  "demo_added =
    \<lparr>s_ios_ctx =
       [\<lparr>drv = \<lparr>drv_ptr = 1, drv_id = 1\<rparr>, next_seqno = 0, queues = [10, 11]\<rparr>,
        \<lparr>drv = \<lparr>drv_ptr = 2, drv_id = 2\<rparr>, next_seqno = 5, queues = [12]\<rparr>,
        \<lparr>drv = demo_drv, next_seqno = 0, queues = []\<rparr>],
     s_ios_fds =
       [\<lparr>fd = 3, events = POLL_HAS_DATA, revents = 0\<rparr>,
        \<lparr>fd = 4, events = POLL_HAS_DATA, revents = 0\<rparr>,
        \<lparr>fd = 5, events = POLL_HAS_DATA, revents = 0\<rparr>],
     s_poll_active_target = True,
     s_poll_active_current = False,
     s_read_buf = [0, 0, 0, 0, 0, 0],
     s_records = [rec0, rec0\<lparr>data_id := 8\<rparr>, rec0\<lparr>data_id := 9\<rparr>],
     world = [True, False],
     wrappers = [],
     pushes = [],
     logs = [],
     parse_calls = [],
     barrier = [Pause, Resume]\<rparr>"

lemma demo_add_fd:
  "io_add_fd (demo_env 0 pr_none) 5 (Some demo_drv) (demo_state [True, True, True, True, False])
     = (Ret HOUND_OK, demo_added)"
  by (simp add: demo_add_defs demo_env_def demo_state_def script_alloc_def Let_def demo_added_def
      HOUND_OK_def)


lemma demo_cycles_len:
  "length (wrappers (snd (io_read_cycles (demo_env 0 pr_none) 5 [[10], [10, 11]]
       (last (s_ios_ctx demo_added)) demo_added))) = 3"
  by (simp add: demo_defs demo_added_def demo_drv_def)

lemma demo_read_calls:
  "fst (io_read (demo_env 0 pr_none) 4 demo_ctx (demo_state [])) = Ret HOUND_OK \<and>
   map (\<lambda>c. (pc_pos c, pc_bytes c, pc_left c))
     (parse_calls (snd (snd (io_read (demo_env 0 pr_none) 4 demo_ctx (demo_state [])))))
     = [(0, 5, 3), (2, 3, 1), (4, 1, 1)]"
  by (simp add: demo_defs)

definition demo_full :: "bool list io_state" where
  "demo_full = (demo_state [])\<lparr>s_records := replicate HOUND_DRIVER_MAX_RECORDS rec0\<rparr>"

lemma demo_full_calls:
  "length (parse_calls (snd (snd (io_read (demo_env 0 pr_none) 4 demo_ctx demo_full)))) = 3"
  by (simp add: demo_defs demo_full_def HOUND_DRIVER_MAX_RECORDS_def)

text \<open>
  A \<open>ppoll\<close> result that reports both fds readable, and the example state with
  the \<open>revents\<close> of that result stored.
\<close>

definition pr_both :: poll_result where
  "pr_both = \<lparr>pr_ret = 2, pr_errno = E_other 0, pr_revents = (\<lambda>k. POLLIN)\<rparr>"

definition demo_ready :: "bool list io_state" where
  "demo_ready = (demo_state [])\<lparr>s_ios_fds :=
      [\<lparr>fd = 3, events = POLL_HAS_DATA, revents = POLLIN\<rparr>,
       \<lparr>fd = 4, events = POLL_HAS_DATA, revents = POLLIN\<rparr>]\<rparr>"

lemmas demo_loop_defs = demo_ready_def pr_both_def POLLIN_def POLLPRI_def POLL_HAS_DATA_def
  HOUND_INTR_def read_fds.simps


lemma demo_fail_read:
  "fst (io_read (demo_env (- 19) pr_both) 3 (s_ios_ctx demo_ready ! 0) demo_ready) = Ret (- 19)"
  by (simp add: demo_defs demo_loop_defs)

lemma demo_fail_loop:
  "fst (read_fds (demo_env (- 19) pr_both) 0 2 demo_ready) = Next_cycle \<and>
   logs (snd (read_fds (demo_env (- 19) pr_both) 0 2 demo_ready)) =
     [Log_parse_failed (- 19) 5 \<lparr>drv_ptr = 1, drv_id = 1\<rparr>, Log_grab_failed (- 19) 3] \<and>
   length (wrappers (snd (read_fds (demo_env (- 19) pr_both) 0 2 demo_ready))) = 2"
  by (simp add: demo_defs demo_loop_defs)

text \<open>
  An example schema: a document with an id, a name and a list of format entries,
  and a heap with nothing allocated and a given script of allocation outcomes.
  The allocations of \<open>parse\<close> on a document with two entries are, in order: the
  parser, the push of the descriptor, the descriptor's name, the format array,
  the first entry's name, the second entry's name, the array returned.
\<close>

definition demo_schema_env :: schema_env where
  "demo_schema_env =
    \<lparr>strtoul = (\<lambda>s. Some (length s)), parse_type = (\<lambda>s. Some 0), xv_failed_descs = (\<lambda>v. v)\<rparr>"

definition demo_fmt :: "string \<Rightarrow> yaml_node" where
  "demo_fmt n = Mapping [(Scalar ''name'', Scalar n), (Scalar ''unit'', Scalar ''m/s''),
     (Scalar ''type'', Scalar ''float''), (Scalar ''size'', Scalar ''4'')]"

definition demo_doc :: "yaml_node list \<Rightarrow> yaml_node" where
  "demo_doc fmts = Mapping [(Scalar ''id'', Scalar ''1''), (Scalar ''name'', Scalar ''speed''),
     (Scalar ''fmt'', Sequence fmts)]"

definition demo_heap :: "bool list \<Rightarrow> heap" where
  "demo_heap s = \<lparr>live = [], next_addr = 1, script = s, fmt_arrays = Map.empty,
                  desc_arrays = Map.empty\<rparr>"

lemmas schema_defs = parse_def next_outcome_def alloc_def free_def destroy_schema_desc_def
  destroy_desc_fmts_def parse_fmts_def parse_num_def find_unit_def unit_strs_def
  demo_schema_env_def demo_fmt_def demo_doc_def demo_heap_def blank_fmt_def Let_def
  MAX_FMT_ENTRIES_def UINT32_MAX_def HOUND_OK_def HOUND_OOM_def

section \<open>The claims\<close>

text \<open>
  C1. For every driver fd registered with the I/O loop, the sequence numbers
  assigned to records pushed to its attached queues start at 0 when the fd is added
  and increase consecutively by 1 in production order (no gaps), with one per-fd
  counter shared by all data ids of that driver instance: from the context
  \<open>io_add_fd\<close> creates, over any number of read cycles and whatever queues are
  attached in each, the wrappers made for the fd carry the sequence numbers
  \<open>0, 1, 2, \<dots>\<close> in the order they were made, whatever their data ids, and the
  counter ends at their number. \<open>hound_seqno\<close> is a 64-bit unsigned integer: read
  as natural numbers the sequence numbers are \<open>0, 1, \<dots>, n - 1\<close> for up to
  \<open>2 ^ 64\<close> records. A queue that is attached once in every cycle is pushed
  exactly these wrappers, in this order.
\<close>

theorem seqnos_start_at_zero_without_gaps:
  assumes "io_add_fd env f d st0 = (Ret HOUND_OK, st1)"
    and "io_read_cycles env f qss (last (s_ios_ctx st1)) st1 = (ctx', st')"
  shows "\<exists>ws. wrappers st' = wrappers st0 @ ws \<and>
           map (\<lambda>w. seqno (ri_record w)) ws = seq_from 0 (length ws) \<and>
           next_seqno ctx' = of_nat (length ws) \<and>
           (length ws \<le> 2 ^ 64 \<longrightarrow> map (\<lambda>w. unat (seqno (ri_record w))) ws = [0..<length ws]) \<and>
           (list_all (\<lambda>qs. count_list qs q = 1) qss \<longrightarrow>
              pushed_to q (pushes st') = pushed_to q (pushes st0) @ ws)"
proof -
  from io_add_fd_ok[OF assms(1)] have
    c: "next_seqno (last (s_ios_ctx st1)) = 0" and w: "wrappers st1 = wrappers st0"
    by auto
  from io_read_cycles_seqnos[OF assms(2)] c w obtain ws where ws:
    "wrappers st' = wrappers st0 @ ws"
    "map (\<lambda>w. seqno (ri_record w)) ws = seq_from 0 (length ws)"
    "next_seqno ctx' = of_nat (length ws)"
    by auto
  have u: "map (\<lambda>w. unat (seqno (ri_record w))) ws = [0..<length ws]" if "length ws \<le> 2 ^ 64"
  proof -
    have "map (\<lambda>w. unat (seqno (ri_record w))) ws = map unat (map (\<lambda>w. seqno (ri_record w)) ws)"
      by simp
    also have "\<dots> = [0..<length ws]"
      unfolding ws(2) using that by (rule unat_seq_from_0)
    finally show ?thesis .
  qed
  have p: "pushed_to q (pushes st') = pushed_to q (pushes st0) @ ws"
    if "list_all (\<lambda>qs. count_list qs q = 1) qss"
    using io_read_cycles_pushed_to[OF assms(2) that] io_add_fd_ok_pushes[OF assms(1)] w ws(1)
    by simp
  from ws u p show ?thesis by blast
qed

theorem seqnos_start_at_zero_without_gaps_witness:
  "\<exists>ws. length ws = 3 \<and>
     io_add_fd (demo_env 0 pr_none) 5 (Some demo_drv)
        (demo_state [True, True, True, True, False]) = (Ret HOUND_OK, demo_added) \<and>
     wrappers (snd (io_read_cycles (demo_env 0 pr_none) 5 [[10], [10, 11]]
        (last (s_ios_ctx demo_added)) demo_added))
       = wrappers (demo_state [True, True, True, True, False]) @ ws \<and>
     map (\<lambda>w. seqno (ri_record w)) ws = [0, 1, 2] \<and>
     map (\<lambda>w. unat (seqno (ri_record w))) ws = [0, 1, 2] \<and>
     pushed_to 10 (pushes (snd (io_read_cycles (demo_env 0 pr_none) 5 [[10], [10, 11]]
        (last (s_ios_ctx demo_added)) demo_added))) = ws"
proof -
  let ?S = "demo_state [True, True, True, True, False]"
  let ?X = "io_read_cycles (demo_env 0 pr_none) 5 [[10], [10, 11]]
              (last (s_ios_ctx demo_added)) demo_added"
  have x: "?X = (fst ?X, snd ?X)" by simp
  have q: "list_all (\<lambda>qs. count_list qs (10 :: queue) = 1) [[10], [10, 11]]" by simp
  from seqnos_start_at_zero_without_gaps[OF demo_add_fd x, of 10] q obtain ws where ws:
    "wrappers (snd ?X) = wrappers ?S @ ws"
    "map (\<lambda>w. seqno (ri_record w)) ws = seq_from 0 (length ws)"
    "length ws \<le> 2 ^ 64 \<longrightarrow> map (\<lambda>w. unat (seqno (ri_record w))) ws = [0..<length ws]"
    "pushed_to 10 (pushes (snd ?X)) = pushed_to 10 (pushes ?S) @ ws"
    by blast
  from ws(1) demo_cycles_len have l: "length ws = 3" by (simp add: demo_state_def)
  have u: "[0..<3] = [0, 1, 2::nat]" by (simp add: eval_nat_numeral)
  from l ws(2) have s: "map (\<lambda>w. seqno (ri_record w)) ws = [0, 1, 2]"
    by (simp add: seq_from_def u)
  from l ws(3) have "map (\<lambda>w. unat (seqno (ri_record w))) ws = [0..<3]" by simp
  with u have t: "map (\<lambda>w. unat (seqno (ri_record w))) ws = [0, 1, 2]" by simp
  from ws(4) have p: "pushed_to 10 (pushes (snd ?X)) = ws"
    by (simp add: demo_state_def pushed_to_def)
  show ?thesis
  proof (intro exI[of _ ws] conjI)
    show "length ws = 3" by (rule l)
    show "io_add_fd (demo_env 0 pr_none) 5 (Some demo_drv) ?S = (Ret HOUND_OK, demo_added)"
      by (rule demo_add_fd)
    show "wrappers (snd ?X) = wrappers ?S @ ws" by (rule ws(1))
    show "map (\<lambda>w. seqno (ri_record w)) ws = [0, 1, 2]" by (rule s)
    show "map (\<lambda>w. unat (seqno (ri_record w))) ws = [0, 1, 2]" by (rule t)
    show "pushed_to 10 (pushes (snd ?X)) = ws" by (rule p)
  qed
qed

text \<open>
  C2. For every record produced in an I/O cycle, the refcount of its wrapper is
  initialised to exactly the number of queues attached to that fd at publication
  time, and the wrapper is then pushed once to each of those queues: the wrappers
  \<open>ws\<close> one \<open>io_read\<close> initialises all carry the length of the context's queue
  vector, and the \<open>queue_push\<close> calls it makes are, wrapper by wrapper, one call
  per entry of that vector, in order.
\<close>

theorem io_read_refcount_fan_out:
  assumes "io_read env f ctx st = (r, ctx', st')"
  shows "\<exists>ws. wrappers st' = wrappers st @ ws \<and>
           list_all (\<lambda>w. refcount w = length (queues ctx)) ws \<and>
           pushes st' = pushes st @ concat (map (\<lambda>w. map (\<lambda>q. (q, w)) (queues ctx)) ws)"
proof -
  from io_read_fanned[OF assms] obtain ws where "fanned ctx st ctx' st' ws" ..
  then have "wrappers st' = wrappers st @ ws \<and>
           list_all (\<lambda>w. refcount w = length (queues ctx)) ws \<and>
           pushes st' = pushes st @ concat (map (\<lambda>w. map (\<lambda>q. (q, w)) (queues ctx)) ws)"
    by (simp add: fanned_def list_all_iff)
  then show ?thesis ..
qed

theorem io_read_refcount_fan_out_witness:
  "\<exists>ws. ws \<noteq> [] \<and>
     wrappers (snd (snd (io_read (demo_env 0 pr_none) 4 demo_ctx (demo_state [True, False, True]))))
       = wrappers (demo_state [True, False, True]) @ ws \<and>
     list_all (\<lambda>w. refcount w = 2) ws \<and>
     pushes (snd (snd (io_read (demo_env 0 pr_none) 4 demo_ctx (demo_state [True, False, True]))))
       = pushes (demo_state [True, False, True]) @ concat (map (\<lambda>w. [(12, w), (13, w)]) ws)"
proof -
  let ?S = "demo_state [True, False, True]"
  let ?X = "io_read (demo_env 0 pr_none) 4 demo_ctx ?S"
  have e: "?X = (fst ?X, fst (snd ?X), snd (snd ?X))" by simp
  from io_read_refcount_fan_out[OF e] obtain ws where ws:
    "wrappers (snd (snd ?X)) = wrappers ?S @ ws"
    "list_all (\<lambda>w. refcount w = length (queues demo_ctx)) ws"
    "pushes (snd (snd ?X)) = pushes ?S @ concat (map (\<lambda>w. map (\<lambda>q. (q, w)) (queues demo_ctx)) ws)"
    by blast
  have "length (wrappers (snd (snd ?X))) = 1" by (simp add: demo_defs)
  with ws(1) have "ws \<noteq> []" by (auto simp: demo_state_def)
  with ws show ?thesis by (auto simp: demo_ctx_def numeral_2_eq_2)
qed

text \<open>
  C3. For every parse-style driver read cycle: after each parse call the core
  advances its buffer position by exactly the number of bytes the driver consumed
  (initial bytes minus the value the driver left in the in/out byte count),
  re-invokes parse while consumed bytes are nonzero and bytes remain, stops
  re-invoking as soon as the driver leaves the byte count unchanged, and discards
  any unconsumed bytes for that cycle: the parse calls of one \<open>io_read\<close> are
  chained from offset 0 and the number of bytes this \<open>read\<close> delivered, whatever an
  earlier cycle left in the buffer, and when \<open>io_read\<close> returns \<open>HOUND_OK\<close> the
  last call left the byte count unchanged or zero.
\<close>

theorem io_read_parse_chain:
  assumes "sys_read env (world st) f POLL_BUF_SIZE = (Read_ok bytes, w')"
    and "io_read env f ctx st = (r, ctx', st')"
  shows "\<exists>cs. parse_calls st' = parse_calls st @ cs \<and>
           chained 0 (min (length bytes) POLL_BUF_SIZE) cs \<and>
           (r = Ret HOUND_OK \<longrightarrow> stopped (min (length bytes) POLL_BUF_SIZE) cs)"
proof -
  define st0 where "st0 = st\<lparr>world := w', s_read_buf := take POLL_BUF_SIZE bytes @
               drop (length (take POLL_BUF_SIZE bytes)) (s_read_buf st)\<rparr>"
  from assms have "parse_loop env 0 (length (take POLL_BUF_SIZE bytes)) ctx st0 = (r, ctx', st')"
    by (simp add: io_read_def Let_def st0_def)
  from parse_loop_calls[OF this] obtain cs where
    "parse_calls st' = parse_calls st0 @ cs"
    "chained 0 (length (take POLL_BUF_SIZE bytes)) cs"
    "r = Ret HOUND_OK \<longrightarrow> stopped (length (take POLL_BUF_SIZE bytes)) cs"
    by blast
  then have "parse_calls st' = parse_calls st @ cs \<and>
           chained 0 (min (length bytes) POLL_BUF_SIZE) cs \<and>
           (r = Ret HOUND_OK \<longrightarrow> stopped (min (length bytes) POLL_BUF_SIZE) cs)"
    by (simp add: st0_def)
  then show ?thesis ..
qed

theorem io_read_parse_chain_witness:
  "fst (io_read (demo_env 0 pr_none) 4 demo_ctx (demo_state [])) = Ret HOUND_OK \<and>
   map (\<lambda>c. (pc_pos c, pc_bytes c, pc_left c))
     (parse_calls (snd (snd (io_read (demo_env 0 pr_none) 4 demo_ctx (demo_state [])))))
     = [(0, 5, 3), (2, 3, 1), (4, 1, 1)] \<and>
   chained 0 5 (parse_calls (snd (snd (io_read (demo_env 0 pr_none) 4 demo_ctx (demo_state []))))) \<and>
   stopped 5 (parse_calls (snd (snd (io_read (demo_env 0 pr_none) 4 demo_ctx (demo_state [])))))"
proof -
  let ?S = "demo_state []"
  let ?X = "io_read (demo_env 0 pr_none) 4 demo_ctx ?S"
  have rd: "sys_read (demo_env 0 pr_none) (world ?S) 4 POLL_BUF_SIZE = (Read_ok [1, 2, 3, 4, 5], [])"
    by (simp add: demo_env_def demo_state_def)
  have x: "?X = (fst ?X, fst (snd ?X), snd (snd ?X))" by simp
  from io_read_parse_chain[OF rd x] obtain cs where cs:
    "parse_calls (snd (snd ?X)) = parse_calls ?S @ cs"
    "chained 0 (min (length [1, 2, 3, 4, 5 :: 8 word]) POLL_BUF_SIZE) cs"
    "fst ?X = Ret HOUND_OK \<longrightarrow> stopped (min (length [1, 2, 3, 4, 5 :: 8 word]) POLL_BUF_SIZE) cs"
    by blast
  have m: "min (length [1, 2, 3, 4, 5 :: 8 word]) POLL_BUF_SIZE = 5"
    by (simp add: POLL_BUF_SIZE_def)
  from cs(1) have e: "cs = parse_calls (snd (snd ?X))" by (simp add: demo_state_def)
  from cs(2,3) demo_read_calls show ?thesis unfolding m e by simp
qed

text \<open>
  C4. A pause signal delivered to the I/O thread between the \<open>pthread_kill\<close> of
  \<open>io_pause_poll\<close> and the thread's next \<open>ppoll\<close> still interrupts that wait. This
  is a property of two threads and of the kernel's pending signals and signal
  masks; the functions of io.c are modelled here one call at a time, with the
  handshake of \<open>io_pause_poll\<close> and \<open>io_wait_for_ready\<close> taken at its end, so the
  property is not stated.
\<close>

text \<open>
  C5. When the I/O loop's blocking wait call fails: if interrupted by the pause
  signal the loop returns to its ready-wait step; on other fatal errors from the
  kernel call (e.g. out-of-memory) the loop logs the error and likewise goes back
  to the ready-wait step and keeps running rather than terminating. The code does
  not do the second: with \<open>ppoll\<close> returning -1 and \<open>ENOMEM\<close>, the pass logs the
  error and then fails \<open>XASSERT_GT(fds, 0)\<close>, which terminates the process.
\<close>

theorem io_poll_cycle_enomem_terminates:
  "fst (io_poll_cycle (demo_env 0 pr_none) (demo_state [])) = Terminated \<and>
   logs (snd (io_poll_cycle (demo_env 0 pr_none) (demo_state []))) = [Log_poll_enomem]"
  by (simp add: io_poll_cycle_def io_wait_for_ready_def demo_env_def demo_state_def pr_none_def
      Let_def)

text \<open>
  C6, as amended. If a driver's parse call fails during an I/O cycle with an error
  other than \<open>HOUND_INTR\<close>, the error is logged and the loop continues with the
  next readable fd in the same cycle; no error is returned to a caller, and the fd
  set and the target flag are as before, so that the fd is waited on again in the
  following cycles. Here \<open>io_read\<close> has logged the parse failure, and the
  \<open>for\<close> loop, having logged it as well, behaves as it does from the next index
  with one readable fd fewer to find.
\<close>

theorem parse_failure_goes_on_with_next_fd:
  assumes "0 < fds" and "i < length (s_ios_fds st)" and "i < length (s_ios_ctx st)"
    and "revents (s_ios_fds st ! i) AND POLL_HAS_DATA \<noteq> 0"
    and "sys_read env (world st) (fd (s_ios_fds st ! i)) POLL_BUF_SIZE = (Read_ok bytes, w')"
    and "io_read env (fd (s_ios_fds st ! i)) (s_ios_ctx st ! i) st = (Ret e, ctx', st')"
    and "e \<noteq> HOUND_OK" and "e \<noteq> HOUND_INTR"
  shows "(\<exists>n. last (logs st') = Log_parse_failed e n (drv (s_ios_ctx st ! i))) \<and>
         pc_err (last (parse_calls st')) = e \<and>
         read_fds env i fds st =
           read_fds env (i + 1) (fds - 1)
             (st'\<lparr>s_ios_ctx := (s_ios_ctx st')[i := ctx'],
                  logs := logs st' @ [Log_grab_failed e (fd (s_ios_fds st ! i))]\<rparr>) \<and>
         s_ios_fds st' = s_ios_fds st \<and>
         s_poll_active_target st' = s_poll_active_target st"
proof -
  from io_read_parse_failed[OF assms(5,6,7)]
  have a: "\<exists>n. last (logs st') = Log_parse_failed e n (drv (s_ios_ctx st ! i))"
    "pc_err (last (parse_calls st')) = e" by auto
  from assms(4) have nz: "revents (s_ios_fds st ! i) \<noteq> 0" by auto
  have "read_fds env i fds st =
           read_fds env (i + 1) (fds - 1)
             (st'\<lparr>s_ios_ctx := (s_ios_ctx st')[i := ctx'],
                  logs := logs st' @ [Log_grab_failed e (fd (s_ios_fds st ! i))]\<rparr>)"
    by (subst read_fds.simps) (simp add: assms nz Let_def)
  with a io_read_statics(1,3)[OF assms(6)] show ?thesis by simp
qed

theorem parse_failure_goes_on_with_next_fd_witness:
  "fst (io_read (demo_env (- 19) pr_both) 3 (s_ios_ctx demo_ready ! 0) demo_ready) = Ret (- 19) \<and>
   read_fds (demo_env (- 19) pr_both) 0 2 demo_ready =
     read_fds (demo_env (- 19) pr_both) (0 + 1) (2 - 1)
       ((snd (snd (io_read (demo_env (- 19) pr_both) 3 (s_ios_ctx demo_ready ! 0) demo_ready)))
          \<lparr>s_ios_ctx := (s_ios_ctx (snd (snd (io_read (demo_env (- 19) pr_both) 3
                (s_ios_ctx demo_ready ! 0) demo_ready))))
              [0 := fst (snd (io_read (demo_env (- 19) pr_both) 3
                (s_ios_ctx demo_ready ! 0) demo_ready))],
            logs := logs (snd (snd (io_read (demo_env (- 19) pr_both) 3
                (s_ios_ctx demo_ready ! 0) demo_ready))) @ [Log_grab_failed (- 19) 3]\<rparr>) \<and>
   fst (read_fds (demo_env (- 19) pr_both) 0 2 demo_ready) = Next_cycle \<and>
   logs (snd (read_fds (demo_env (- 19) pr_both) 0 2 demo_ready)) =
     [Log_parse_failed (- 19) 5 \<lparr>drv_ptr = 1, drv_id = 1\<rparr>, Log_grab_failed (- 19) 3] \<and>
   length (wrappers (snd (read_fds (demo_env (- 19) pr_both) 0 2 demo_ready))) = 2"
proof -
  let ?E = "demo_env (- 19) pr_both"
  let ?X = "io_read ?E 3 (s_ios_ctx demo_ready ! 0) demo_ready"
  have f: "fd (s_ios_fds demo_ready ! 0) = 3" by (simp add: demo_ready_def)
  have h: "(0::int) < 2" "0 < length (s_ios_fds demo_ready)" "0 < length (s_ios_ctx demo_ready)"
    "revents (s_ios_fds demo_ready ! 0) AND POLL_HAS_DATA \<noteq> 0"
    by (simp_all add: demo_ready_def demo_state_def POLLIN_def POLLPRI_def POLL_HAS_DATA_def)
  have rd: "sys_read ?E (world demo_ready) (fd (s_ios_fds demo_ready ! 0)) POLL_BUF_SIZE =
      (Read_ok [1, 2, 3, 4, 5], [])"
    by (simp add: demo_env_def demo_ready_def demo_state_def)
  have x: "io_read ?E (fd (s_ios_fds demo_ready ! 0)) (s_ios_ctx demo_ready ! 0) demo_ready =
      (Ret (- 19), fst (snd ?X), snd (snd ?X))"
    unfolding f using demo_fail_read by (metis prod.collapse)
  have e: "(- 19 :: int) \<noteq> HOUND_OK" "(- 19 :: int) \<noteq> HOUND_INTR"
    by (simp_all add: HOUND_OK_def HOUND_INTR_def)
  from parse_failure_goes_on_with_next_fd[OF h rd x e] demo_fail_read demo_fail_loop
  show ?thesis unfolding f by simp
qed

text \<open>
  C6 as stated fails for a parse call that returns \<open>HOUND_INTR\<close>: \<open>io_poll\<close> takes
  that result of \<open>io_read\<close> for an interrupted \<open>read\<close> and leaves the \<open>for\<close>
  loop. In the example the driver of fd 3 fails with \<open>HOUND_INTR\<close> while fd 4 is
  readable too: the cycle ends with the one parse call of fd 3, fd 4 is not read,
  and the loop does not behave as it does from the next index.
\<close>

theorem parse_failure_intr_counterexample:
  "fst (io_read (demo_env HOUND_INTR pr_both) 3 (s_ios_ctx demo_ready ! 0) demo_ready)
     = Ret HOUND_INTR \<and>
   map pc_err (parse_calls (snd (snd (io_read (demo_env HOUND_INTR pr_both) 3
       (s_ios_ctx demo_ready ! 0) demo_ready)))) = [HOUND_INTR] \<and>
   revents (s_ios_fds demo_ready ! 1) AND POLL_HAS_DATA \<noteq> 0 \<and>
   fst (read_fds (demo_env HOUND_INTR pr_both) 0 2 demo_ready) = Next_cycle \<and>
   length (parse_calls (snd (read_fds (demo_env HOUND_INTR pr_both) 0 2 demo_ready))) = 1 \<and>
   logs (snd (read_fds (demo_env HOUND_INTR pr_both) 0 2 demo_ready)) =
     [Log_parse_failed HOUND_INTR 5 \<lparr>drv_ptr = 1, drv_id = 1\<rparr>] \<and>
   read_fds (demo_env HOUND_INTR pr_both) 0 2 demo_ready \<noteq>
     read_fds (demo_env HOUND_INTR pr_both) (0 + 1) (2 - 1)
       ((snd (snd (io_read (demo_env HOUND_INTR pr_both) 3 (s_ios_ctx demo_ready ! 0) demo_ready)))
          \<lparr>s_ios_ctx := (s_ios_ctx (snd (snd (io_read (demo_env HOUND_INTR pr_both) 3
                (s_ios_ctx demo_ready ! 0) demo_ready))))
              [0 := fst (snd (io_read (demo_env HOUND_INTR pr_both) 3
                (s_ios_ctx demo_ready ! 0) demo_ready))],
            logs := logs (snd (snd (io_read (demo_env HOUND_INTR pr_both) 3
                (s_ios_ctx demo_ready ! 0) demo_ready))) @ [Log_grab_failed HOUND_INTR 3]\<rparr>)"
  by (simp add: demo_defs demo_loop_defs)

text \<open>
  C7. Every mutation of the I/O loop's shared structures (add/remove fd,
  attach/detach queue) acquires the pause barrier before editing and releases it
  before the mutator returns, on success and on failure alike. \<open>io_add_queue\<close>
  does not release it on failure: when the push onto the queue vector cannot
  allocate, it returns \<open>HOUND_OOM\<close> after \<open>io_pause_poll\<close> and before
  \<open>io_resume_poll\<close>, the target flag stays cleared and the next pass of the I/O
  thread stays blocked in \<open>io_wait_for_ready\<close>. With a push that succeeds the
  barrier is released.
\<close>

theorem io_add_queue_oom_stays_paused:
  "fst (io_add_queue (demo_env 0 pr_none) 4 14 (demo_state [False])) = Ret HOUND_OOM \<and>
   barrier (snd (io_add_queue (demo_env 0 pr_none) 4 14 (demo_state [False]))) = [Pause] \<and>
   s_poll_active_target (snd (io_add_queue (demo_env 0 pr_none) 4 14 (demo_state [False]))) = False \<and>
   fst (io_poll_cycle (demo_env 0 pr_none)
          (snd (io_add_queue (demo_env 0 pr_none) 4 14 (demo_state [False])))) = Blocked \<and>
   barrier (snd (io_add_queue (demo_env 0 pr_none) 4 14 (demo_state [True]))) = [Pause, Resume]"
  by (simp add: io_add_queue_def get_fd_index_def io_pause_poll_def io_resume_poll_def
      io_poll_cycle_def io_wait_for_ready_def demo_env_def demo_state_def script_alloc_def Let_def)

text \<open>
  C8. Errors during mutator calls surface synchronously to the caller and roll
  back to the prior consistent state: if schema parsing fails partway, every
  partially constructed descriptor is destroyed and no descriptor array is
  returned. \<open>parse\<close> does not destroy the descriptor when the name of a format
  entry cannot be allocated: \<open>parse_fmts\<close> returns without storing the array in
  \<open>desc->fmts\<close>, so when the first entry fails the array stays allocated after
  \<open>parse\<close> has returned \<open>HOUND_OOM\<close>, and when the second entry fails the cleanup
  reads the first entry's name through the NULL pointer. When the array itself
  cannot be allocated everything is freed, and without a failure the descriptor
  array is returned, its block and the four of the descriptor allocated.
\<close>

theorem schema_parse_fmt_oom_not_rolled_back:
  "map_sum id (\<lambda>(out, h). (po_err out, out_descs out, live h))
     (parse demo_schema_env [demo_doc [demo_fmt ''x'', demo_fmt ''y'']]
        (demo_heap [True, True, True, True, False]))
     = Inr (HOUND_OOM, None, [2]) \<and>
   parse demo_schema_env [demo_doc [demo_fmt ''x'', demo_fmt ''y'']]
     (demo_heap [True, True, True, True, True, False])
     = Inl Null_deref \<and>
   map_sum id (\<lambda>(out, h). (po_err out, out_descs out, live h))
     (parse demo_schema_env [demo_doc [demo_fmt ''x'', demo_fmt ''y'']]
        (demo_heap [True, True, True, False]))
     = Inr (HOUND_OOM, None, []) \<and>
   map_sum id (\<lambda>(out, h). (po_err out, out_descs out, live h))
     (parse demo_schema_env [demo_doc [demo_fmt ''x'', demo_fmt ''y'']] (demo_heap []))
     = Inr (HOUND_OK, Some (Some 5), [1, 2, 3, 4, 5])"
  by (simp add: schema_defs)

text \<open>
  C9. A single parse or poll call never needs to emit more than
  \<open>MAX_RECORDS_PER_CALL = 1000\<close> records: the core supplies every parse call a
  scratch record array whose capacity is exactly \<open>HOUND_DRIVER_MAX_RECORDS = 1000\<close>,
  and this constant equals the spec's ABI value. The array has that length when
  the program starts, every parse call of \<open>io_read\<close> is passed an array of that
  length, and \<open>io_read\<close> leaves the array at that length.
\<close>

theorem parse_record_array_capacity:
  assumes "length (s_records st) = HOUND_DRIVER_MAX_RECORDS"
    and "io_read env f ctx st = (r, ctx', st')"
  shows "length (s_records (io_statics w)) = HOUND_DRIVER_MAX_RECORDS \<and>
         list_all (\<lambda>c. pc_capacity c = MAX_RECORDS_PER_CALL)
           (drop (length (parse_calls st)) (parse_calls st')) \<and>
         length (s_records st') = HOUND_DRIVER_MAX_RECORDS \<and>
         HOUND_DRIVER_MAX_RECORDS = MAX_RECORDS_PER_CALL"
proof -
  from io_read_capacity[OF assms(2)] assms(1)
  have "list_all (\<lambda>c. pc_capacity c = MAX_RECORDS_PER_CALL)
           (drop (length (parse_calls st)) (parse_calls st'))"
    by (simp add: HOUND_DRIVER_MAX_RECORDS_def MAX_RECORDS_PER_CALL_def)
  moreover from io_read_statics(6)[OF assms(2)] assms(1)
  have "length (s_records st') = HOUND_DRIVER_MAX_RECORDS" by simp
  ultimately show ?thesis
    by (simp add: io_statics_def HOUND_DRIVER_MAX_RECORDS_def MAX_RECORDS_PER_CALL_def)
qed

theorem parse_record_array_capacity_witness:
  "length (parse_calls (snd (snd (io_read (demo_env 0 pr_none) 4 demo_ctx demo_full)))) = 3 \<and>
   list_all (\<lambda>c. pc_capacity c = 1000)
     (parse_calls (snd (snd (io_read (demo_env 0 pr_none) 4 demo_ctx demo_full)))) \<and>
   length (s_records (snd (snd (io_read (demo_env 0 pr_none) 4 demo_ctx demo_full)))) = 1000"
proof -
  let ?X = "io_read (demo_env 0 pr_none) 4 demo_ctx demo_full"
  have l: "length (s_records demo_full) = HOUND_DRIVER_MAX_RECORDS"
    by (simp add: demo_full_def)
  have x: "?X = (fst ?X, fst (snd ?X), snd (snd ?X))" by simp
  have p: "parse_calls demo_full = []" by (simp add: demo_full_def demo_state_def)
  from parse_record_array_capacity[where w = "[] :: bool list", OF l x] demo_full_calls show ?thesis
    by (simp add: p MAX_RECORDS_PER_CALL_def HOUND_DRIVER_MAX_RECORDS_def)
qed

text \<open>
  C10. If allocating the refcounted wrapper for one record fails with
  out-of-memory during fan-out, the I/O loop logs, skips only that record without
  assigning or advancing the per-fd sequence counter, and continues with the
  remaining records of the same parse batch, so records actually delivered to
  queues still carry consecutive sequence numbers: over a batch of \<open>n\<close> records,
  exactly the records whose allocation succeeded are wrapped, in order, with
  consecutive sequence numbers from the context's counter; the counter advances
  by their number; each failed allocation is logged once; and a skipped record is
  left as the driver stored it.
\<close>

theorem fan_out_skips_failed_allocation:
  assumes "add_to_queues env [0..<n] ctx st = (ctx', st')"
  shows "wrappers st' = wrappers st @
           map (wrap ctx (s_records st))
             (enumerate 0 (delivered [0..<n] (alloc_outcomes env (world st) n))) \<and>
         map (\<lambda>w. seqno (ri_record w)) (drop (length (wrappers st)) (wrappers st')) =
           seq_from (next_seqno ctx) (length (delivered [0..<n] (alloc_outcomes env (world st) n))) \<and>
         logs st' = logs st @
           replicate (length (skipped [0..<n] (alloc_outcomes env (world st) n))) Log_rec_info_oom \<and>
         next_seqno ctx' = next_seqno ctx +
           of_nat (length (delivered [0..<n] (alloc_outcomes env (world st) n))) \<and>
         list_all (\<lambda>i. s_records st' ! i = s_records st ! i)
           (skipped [0..<n] (alloc_outcomes env (world st) n))"
proof -
  let ?d = "delivered [0..<n] (alloc_outcomes env (world st) n)"
  from add_to_queues_outcomes[OF assms] have o:
    "wrappers st' = wrappers st @ map (wrap ctx (s_records st)) (enumerate 0 ?d)"
    "logs st' = logs st @
       replicate (length (skipped [0..<n] (alloc_outcomes env (world st) n))) Log_rec_info_oom"
    "next_seqno ctx' = next_seqno ctx + of_nat (length ?d)"
    "list_all (\<lambda>i. s_records st' ! i = s_records st ! i)
       (skipped [0..<n] (alloc_outcomes env (world st) n))"
    by simp_all
  have "map (\<lambda>w. seqno (ri_record w)) (map (wrap ctx (s_records st)) (enumerate 0 xs)) =
        seq_from (next_seqno ctx) (length xs)" for xs
    by (auto simp: seq_from_def wrap_def enumerate_eq_zip intro!: nth_equalityI)
  with o(1) have "map (\<lambda>w. seqno (ri_record w)) (drop (length (wrappers st)) (wrappers st')) =
      seq_from (next_seqno ctx) (length ?d)"
    by simp
  with o show ?thesis by simp
qed

theorem fan_out_skips_failed_allocation_witness:
  "map (\<lambda>w. seqno (ri_record w))
     (wrappers (snd (add_to_queues (demo_env 0 pr_none) [0..<3] demo_ctx
        (demo_state [True, False, True])))) = [5, 6] \<and>
   map (\<lambda>w. data_id (ri_record w))
     (wrappers (snd (add_to_queues (demo_env 0 pr_none) [0..<3] demo_ctx
        (demo_state [True, False, True])))) = [7, 9] \<and>
   logs (snd (add_to_queues (demo_env 0 pr_none) [0..<3] demo_ctx
        (demo_state [True, False, True]))) = [Log_rec_info_oom] \<and>
   next_seqno (fst (add_to_queues (demo_env 0 pr_none) [0..<3] demo_ctx
        (demo_state [True, False, True]))) = 7 \<and>
   s_records (snd (add_to_queues (demo_env 0 pr_none) [0..<3] demo_ctx
        (demo_state [True, False, True]))) ! 1 = rec0\<lparr>data_id := 8\<rparr>"
proof -
  let ?S = "demo_state [True, False, True]"
  let ?X = "add_to_queues (demo_env 0 pr_none) [0..<3] demo_ctx ?S"
  have e: "?X = (fst ?X, snd ?X)" by simp
  have o: "alloc_outcomes (demo_env 0 pr_none) (world ?S) 3 = [True, False, True]"
    by (simp add: eval_nat_numeral demo_env_def demo_state_def script_alloc_def)
  have d: "delivered [0..<3] [True, False, True] = [0, 2]"
    "skipped [0..<3] [True, False, True] = [1]"
    by (simp_all add: delivered_def skipped_def eval_nat_numeral)
  have w: "wrappers ?S = []" "logs ?S = []" "next_seqno demo_ctx = 5"
    "s_records ?S ! 0 = rec0" "s_records ?S ! 1 = rec0\<lparr>data_id := 8\<rparr>"
    "s_records ?S ! 2 = rec0\<lparr>data_id := 9\<rparr>"
    by (simp_all add: demo_state_def demo_ctx_def)
  from fan_out_skips_failed_allocation[OF e] show ?thesis
    unfolding o d
    by (simp add: wrap_def enumerate_eq_zip demo_state_def demo_ctx_def rec0_def)
qed

end
